theory Spec2Isabelle
  imports Main
begin

section \<open>Data model of the scheduling conflict solver\<close>

text \<open>
  Every point in time the solver handles is a \<^verbatim>\<open>datetime(year, month, day, hh, mm)\<close> of
  October 2017; it is modelled as the number of minutes since the start of that month,
  which keeps the order of datetimes, and \<^verbatim>\<open>timedelta(minutes=5)\<close> is \<open>+ 5\<close>.
\<close>

type_synonym time = nat

definition datetime :: "nat \<Rightarrow> nat \<Rightarrow> nat \<Rightarrow> time" where
  "datetime day hh mm = (day * 24 + hh) * 60 + mm"

definition start_of_day :: nat where
  "start_of_day = 8"

definition end_of_day :: nat where
  "end_of_day = 20"

definition day0 :: nat where
  "day0 = 2"

text \<open>A time slot is the pair \<^verbatim>\<open>(start, end)\<close> appended to \<^verbatim>\<open>Subject.times\<close>.\<close>

type_synonym timeslot = "time \<times> time"

text \<open>
  The table of a schedule is a Python dict from datetimes to subject names, the empty
  string marking a free tick.
\<close>

type_synonym table = "time \<rightharpoonup> string"

datatype error = IndexError | KeyError

datatype subject_type = UE | VO

text \<open>
  \<^verbatim>\<open>class Subject\<close>, with the fields the solver reads. The fields \<^verbatim>\<open>locations\<close>,
  \<^verbatim>\<open>color\<close> and \<^verbatim>\<open>start_times\<close> are only read by the renderers and are left out. The
  parser sets \<^verbatim>\<open>type\<close> to \<^verbatim>\<open>"UE"\<close> or \<^verbatim>\<open>"VO"\<close> or exits.
\<close>

record subject =
  name :: string
  times_list :: "timeslot list"
  type :: subject_type
  allocated_times :: "timeslot set"

text \<open>
  \<^verbatim>\<open>class Allocation\<close>: the cursor \<^verbatim>\<open>index\<close>, the flag \<^verbatim>\<open>has_reached_end\<close> and the
  private list \<^verbatim>\<open>__array\<close> of boolean tuples. The index is never negative.
\<close>

record allocation =
  index :: nat
  has_reached_end :: bool
  private_array :: "bool list list"

text \<open>
  \<^verbatim>\<open>class Schedule\<close>: \<^verbatim>\<open>table\<close> is \<^verbatim>\<open>None\<close> when \<^verbatim>\<open>create_schedule\<close> abandons the
  candidate.
\<close>

record schedule =
  table :: "table option"
  is_incomplete :: bool

section \<open>Schedule: the table operations\<close>

text \<open>
  \<^verbatim>\<open>Schedule.empty_schedule\<close>: five days from \<^verbatim>\<open>day0\<close>, the hours from \<^verbatim>\<open>start_of_day\<close>
  up to \<^verbatim>\<open>end_of_day\<close>, every fifth minute, all mapped to the empty string.
\<close>

definition empty_schedule :: table where
  "empty_schedule =
     fold (\<lambda>day. fold (\<lambda>hh. fold (\<lambda>mm sched. sched(datetime day hh mm \<mapsto> []))
                                   (map (\<lambda>k. 5 * k) [0..<12]))
                        [start_of_day..<end_of_day])
          [day0..<day0 + 5] Map.empty"

text \<open>
  \<^verbatim>\<open>Schedule.is_free\<close>: \<^verbatim>\<open>schedule[t]\<close> raises \<^verbatim>\<open>KeyError\<close> for a datetime that is
  not a key of the table; a non-empty string is truthy.
\<close>

function is_free :: "table \<Rightarrow> timeslot \<Rightarrow> error + bool" where
  "is_free schedule (t, e) =
     (if t < e then
        (case schedule t of
           None \<Rightarrow> Inl KeyError
         | Some v \<Rightarrow> if v \<noteq> [] then Inr False else is_free schedule (t + 5, e))
      else Inr True)"
  by pat_completeness auto
termination
  by (relation "measure (\<lambda>(schedule, t, e). e - t)") auto

declare is_free.simps [simp del]

text \<open>\<^verbatim>\<open>Schedule.fill\<close>: assignment to a dict never raises; a missing key is added.\<close>

function fill :: "table \<Rightarrow> string \<Rightarrow> timeslot \<Rightarrow> table" where
  "fill schedule nm (t, e) =
     (if t < e then fill (schedule(t \<mapsto> nm)) nm (t + 5, e) else schedule)"
  by pat_completeness auto
termination
  by (relation "measure (\<lambda>(schedule, nm, t, e). e - t)") auto

declare fill.simps [simp del]

text \<open>
  The ticks the two loops above visit for a slot: from the start, in steps of five
  minutes, while before the end.
\<close>

function ticks :: "timeslot \<Rightarrow> time list" where
  "ticks (t, e) = (if t < e then t # ticks (t + 5, e) else [])"
  by pat_completeness auto
termination
  by (relation "measure (\<lambda>(t, e). e - t)") auto

declare ticks.simps [simp del]

section \<open>Subject: the transient allocation set\<close>

definition mark_allocated :: "subject \<Rightarrow> timeslot \<Rightarrow> subject" where
  "mark_allocated s selected_time =
     s\<lparr>allocated_times := insert selected_time (allocated_times s)\<rparr>"

definition is_complete :: "subject \<Rightarrow> bool" where
  "is_complete s =
     (if type s = VO then allocated_times s = set (times_list s)
      else 1 \<le> card (allocated_times s))"

definition is_partially_complete :: "subject \<Rightarrow> bool" where
  "is_partially_complete s = (1 \<le> card (allocated_times s))"

definition reset :: "subject \<Rightarrow> subject" where
  "reset s = s\<lparr>allocated_times := {}\<rparr>"

section \<open>Allocation: the enumerator and its cursor\<close>

text \<open>
  \<^verbatim>\<open>itertools.product(xs, repeat=n)\<close>: all \<open>n\<close>-tuples over \<open>xs\<close>, the last position
  changing fastest.
\<close>

primrec product_repeat :: "'a list \<Rightarrow> nat \<Rightarrow> 'a list list" where
  "product_repeat xs 0 = [[]]"
| "product_repeat xs (Suc n) = concat (map (\<lambda>x. map (\<lambda>ys. x # ys) (product_repeat xs n)) xs)"

text \<open>\<^verbatim>\<open>any(booltuple)\<close> and \<^verbatim>\<open>sum(booltuple) == 1\<close>, where \<^verbatim>\<open>True\<close> counts as 1.\<close>

definition any_true :: "bool list \<Rightarrow> bool" where
  "any_true booltuple = (True \<in> set booltuple)"

definition sum_bools :: "bool list \<Rightarrow> nat" where
  "sum_bools booltuple = sum_list (map (\<lambda>b. if b then 1 else 0) booltuple)"

text \<open>\<^verbatim>\<open>Allocation.__init__\<close>.\<close>

definition Allocation :: "subject \<Rightarrow> allocation" where
  "Allocation s =
     \<lparr>index = 0, has_reached_end = False,
      private_array =
        (if type s = VO
         then filter any_true (product_repeat [True, False] (length (times_list s)))
         else filter (\<lambda>booltuple. sum_bools booltuple = 1)
                (product_repeat [True, False] (length (times_list s))))\<rparr>"

text \<open>
  \<^verbatim>\<open>Allocation.get_array\<close> (the property \<^verbatim>\<open>array\<close>): indexing a list out of range raises
  \<^verbatim>\<open>IndexError\<close>.
\<close>

definition get_array :: "allocation \<Rightarrow> error + bool list" where
  "get_array a =
     (if index a < length (private_array a) then Inr (private_array a ! index a)
      else Inl IndexError)"

text \<open>
  \<^verbatim>\<open>Allocation.advance\<close>: the source compares \<^verbatim>\<open>index < len(array) - 1\<close> on integers, so
  with an empty array the flag is set.
\<close>

definition advance :: "allocation \<Rightarrow> allocation" where
  "advance a =
     (if int (index a) < int (length (private_array a)) - 1 then a\<lparr>index := index a + 1\<rparr>
      else a\<lparr>has_reached_end := True\<rparr>)"

definition reverse :: "allocation \<Rightarrow> allocation" where
  "reverse a = (if index a > 0 then a\<lparr>index := index a - 1\<rparr> else a)"

definition reset_end_status :: "allocation \<Rightarrow> allocation" where
  "reset_end_status a = a\<lparr>has_reached_end := False\<rparr>"

section \<open>Schedule.create_schedule\<close>

text \<open>
  The guarded write both passes perform (lines 85 to 87 and 94 to 97 of the source):
  when the slot is free, fill it and mark it allocated for the subject.
\<close>

definition try_allocate :: "table \<Rightarrow> subject \<Rightarrow> timeslot \<Rightarrow> error + (table \<times> subject)" where
  "try_allocate newsched s selected_time =
     (case is_free newsched selected_time of
        Inl e \<Rightarrow> Inl e
      | Inr free \<Rightarrow>
          if free then Inr (fill newsched (name s) selected_time, mark_allocated s selected_time)
          else Inr (newsched, s))"

text \<open>
  The inner loop of the first pass, \<^verbatim>\<open>for j in range(len(subjects[i].times))\<close>, for
  subject \<open>i\<close>; \<^verbatim>\<open>allocations[i].array[j]\<close> indexes the list of cursors, reads the
  current tuple and indexes it.
\<close>

fun first_pass_slots ::
  "allocation list \<Rightarrow> nat \<Rightarrow> nat list \<Rightarrow> table \<Rightarrow> subject \<Rightarrow> error + (table \<times> subject)" where
  "first_pass_slots allocations i [] newsched s = Inr (newsched, s)"
| "first_pass_slots allocations i (j # js) newsched s =
     (if i < length allocations then
        (case get_array (allocations ! i) of
           Inl e \<Rightarrow> Inl e
         | Inr booltuple \<Rightarrow>
             if j < length booltuple then
               (if booltuple ! j then
                  (case try_allocate newsched s (times_list s ! j) of
                     Inl e \<Rightarrow> Inl e
                   | Inr (newsched', s') \<Rightarrow> first_pass_slots allocations i js newsched' s')
                else first_pass_slots allocations i js newsched s)
             else Inl IndexError)
      else Inl IndexError)"

text \<open>The outer loop of the first pass, \<^verbatim>\<open>for i in range(len(subjects))\<close>.\<close>

fun first_pass ::
  "allocation list \<Rightarrow> nat list \<Rightarrow> table \<Rightarrow> subject list \<Rightarrow> error + (table \<times> subject list)" where
  "first_pass allocations [] newsched subjects = Inr (newsched, subjects)"
| "first_pass allocations (i # is) newsched subjects =
     (case first_pass_slots allocations i [0..<length (times_list (subjects ! i))] newsched
             (subjects ! i) of
        Inl e \<Rightarrow> Inl e
      | Inr (newsched', s') \<Rightarrow> first_pass allocations is newsched' (subjects[i := s']))"

text \<open>
  The second pass for one \<^verbatim>\<open>"VO"\<close> subject, \<^verbatim>\<open>for selected_time in subject.times\<close>;
  Python's \<^verbatim>\<open>and\<close> does not call \<^verbatim>\<open>is_free\<close> for a slot that is already allocated.
\<close>

fun second_pass_slots :: "timeslot list \<Rightarrow> table \<Rightarrow> subject \<Rightarrow> error + (table \<times> subject)" where
  "second_pass_slots [] newsched s = Inr (newsched, s)"
| "second_pass_slots (selected_time # rest) newsched s =
     (if selected_time \<notin> allocated_times s then
        (case try_allocate newsched s selected_time of
           Inl e \<Rightarrow> Inl e
         | Inr (newsched', s') \<Rightarrow> second_pass_slots rest newsched' s')
      else second_pass_slots rest newsched s)"

text \<open>The second pass, \<^verbatim>\<open>for subject in subjects\<close>.\<close>

fun second_pass :: "table \<Rightarrow> subject list \<Rightarrow> error + (table \<times> subject list)" where
  "second_pass newsched [] = Inr (newsched, [])"
| "second_pass newsched (s # ss) =
     (case (if type s = VO then second_pass_slots (times_list s) newsched s
            else Inr (newsched, s)) of
        Inl e \<Rightarrow> Inl e
      | Inr (newsched', s') \<Rightarrow>
          (case second_pass newsched' ss of
             Inl e \<Rightarrow> Inl e
           | Inr (newsched'', ss') \<Rightarrow> Inr (newsched'', s' # ss')))"

text \<open>
  The two passes over a fresh empty table (lines 78 to 97): the table and the subjects
  with their allocated sets, before the classification resets them.
\<close>

definition materialize ::
  "subject list \<Rightarrow> allocation list \<Rightarrow> error + (table \<times> subject list)" where
  "materialize subjects allocations =
     (case first_pass allocations [0..<length subjects] empty_schedule subjects of
        Inl e \<Rightarrow> Inl e
      | Inr (newsched, subjects') \<Rightarrow> second_pass newsched subjects')"

text \<open>
  The classification loop (lines 99 to 107), threading \<^verbatim>\<open>self.is_incomplete\<close> and
  \<^verbatim>\<open>total_failure\<close> and resetting each subject.
\<close>

fun classify :: "subject list \<Rightarrow> bool \<Rightarrow> bool \<Rightarrow> bool \<times> bool \<times> subject list" where
  "classify [] incomplete total_failure = (incomplete, total_failure, [])"
| "classify (s # ss) incomplete total_failure =
     (case (if \<not> is_partially_complete s then classify ss incomplete True
            else if \<not> is_complete s then classify ss True total_failure
            else classify ss incomplete total_failure) of
        (incomplete', total_failure', ss') \<Rightarrow> (incomplete', total_failure', reset s # ss'))"

text \<open>
  \<^verbatim>\<open>Schedule(subjects = subjects, allocations = allocations)\<close>: the new schedule object
  and the subjects as the call leaves them. An exception leaves no schedule.
\<close>

definition create_schedule ::
  "subject list \<Rightarrow> allocation list \<Rightarrow> error + (schedule \<times> subject list)" where
  "create_schedule subjects allocations =
     (case materialize subjects allocations of
        Inl e \<Rightarrow> Inl e
      | Inr (newsched, subjects') \<Rightarrow>
          (case classify subjects' False False of
             (incomplete, total_failure, subjects'') \<Rightarrow>
               Inr (\<lparr>table = (if \<not> total_failure then Some newsched else None),
                     is_incomplete = incomplete\<rparr>, subjects'')))"

section \<open>The traversal: percolate\<close>

text \<open>
  The global variables of the run. \<^verbatim>\<open>evaluated\<close> is not a variable of the source: it
  records, in order, the combinations for which \<^verbatim>\<open>Schedule(...)\<close> is called (each call
  prints \<^verbatim>\<open>creating new schedule ...\<close>), and nothing reads it.
\<close>

record globals =
  version :: nat
  duplicates :: nat
  saved_schedules :: "schedule list"
  permutations :: "bool list list set"
  evaluated :: "bool list list list"

text \<open>
  The first loop of \<^verbatim>\<open>percolate\<close>: the first cursor whose flag is set has it cleared,
  and the call returns; \<open>None\<close> when no flag is set.
\<close>

fun reset_first_reached_end :: "allocation list \<Rightarrow> allocation list option" where
  "reset_first_reached_end [] = None"
| "reset_first_reached_end (a # as) =
     (if has_reached_end a then Some (reset_end_status a # as)
      else map_option (\<lambda>as'. a # as') (reset_first_reached_end as))"

text \<open>\<^verbatim>\<open>perm_check\<close>: the tuple of the cursors' current tuples.\<close>

fun perm_check :: "allocation list \<Rightarrow> error + bool list list" where
  "perm_check [] = Inr []"
| "perm_check (element # rest) =
     (case get_array element of
        Inl e \<Rightarrow> Inl e
      | Inr booltuple \<Rightarrow>
          (case perm_check rest of Inl e \<Rightarrow> Inl e | Inr tuples \<Rightarrow> Inr (booltuple # tuples)))"

text \<open>
  Lines 306 to 332 of \<^verbatim>\<open>percolate\<close>. A schedule whose table is \<^verbatim>\<open>None\<close> equals no saved
  schedule (\<^verbatim>\<open>None == dict\<close> is false and raises nothing); \<^verbatim>\<open>not schedule.table\<close> holds
  for \<^verbatim>\<open>None\<close> and for an empty dict. The writers and the calendar are left out.
\<close>

definition schedule_eq :: "schedule \<Rightarrow> schedule \<Rightarrow> bool" where
  "schedule_eq a b = (table a = table b)"

definition evaluate ::
  "subject list \<Rightarrow> allocation list \<Rightarrow> globals \<Rightarrow> (error \<times> globals) + (subject list \<times> globals)" where
  "evaluate subjects allocations g =
     (case create_schedule subjects allocations of
        Inl e \<Rightarrow> Inl (e, g)
      | Inr (sched, subjects') \<Rightarrow>
          (let duplicate = list_ex (\<lambda>element. schedule_eq sched element) (saved_schedules g);
               g1 = (if duplicate then g\<lparr>duplicates := duplicates g + 1\<rparr> else g);
               failed = (case table sched of None \<Rightarrow> True | Some t \<Rightarrow> t = Map.empty)
           in if \<not> duplicate \<and> \<not> failed
              then Inr (subjects', g1\<lparr>version := version g1 + 1,
                                      saved_schedules := saved_schedules g1 @ [sched]\<rparr>)
              else Inr (subjects', g1)))"

text \<open>
  \<^verbatim>\<open>percolate\<close> and its last loop. The recursion of the source is bounded by the
  interpreter's recursion limit; here the first argument bounds its depth, and \<open>None\<close>
  is a run that needs more. A raised exception carries the globals as it leaves them.
\<close>

fun percolate ::
  "nat \<Rightarrow> subject list \<Rightarrow> allocation list \<Rightarrow> globals \<Rightarrow>
     ((error \<times> globals) + (subject list \<times> allocation list \<times> globals)) option"
and percolate_loop ::
  "nat \<Rightarrow> nat list \<Rightarrow> subject list \<Rightarrow> allocation list \<Rightarrow> globals \<Rightarrow>
     ((error \<times> globals) + (subject list \<times> allocation list \<times> globals)) option" where
  "percolate 0 subjects allocations g = None"
| "percolate (Suc depth) subjects allocations g =
     (case reset_first_reached_end allocations of
        Some allocations' \<Rightarrow> Some (Inr (subjects, allocations', g))
      | None \<Rightarrow>
          (case perm_check allocations of
             Inl e \<Rightarrow> Some (Inl (e, g))
           | Inr perm \<Rightarrow>
               if perm \<in> permutations g then Some (Inr (subjects, allocations, g))
               else
                 (case evaluate subjects allocations
                         (g\<lparr>permutations := insert perm (permutations g),
                            evaluated := evaluated g @ [perm]\<rparr>) of
                    Inl eg \<Rightarrow> Some (Inl eg)
                  | Inr (subjects', g') \<Rightarrow>
                      percolate_loop depth [0..<length allocations] subjects' allocations g')))"
| "percolate_loop depth [] subjects allocations g = Some (Inr (subjects, allocations, g))"
| "percolate_loop depth (i # is) subjects allocations g =
     (case percolate depth subjects (allocations[i := advance (allocations ! i)]) g of
        None \<Rightarrow> None
      | Some (Inl eg) \<Rightarrow> Some (Inl eg)
      | Some (Inr (subjects', allocations', g')) \<Rightarrow>
          percolate_loop depth is subjects' (allocations'[i := reverse (allocations' ! i)]) g')"

section \<open>The run and its summary\<close>

definition init_globals :: globals where
  "init_globals =
     \<lparr>version = 0, duplicates = 0, saved_schedules = [], permutations = {}, evaluated = []\<rparr>"

text \<open>
  The worker thread's call
  \<^verbatim>\<open>percolate(subjects, [Allocation(subject) for subject in subjects])\<close>.
\<close>

definition run ::
  "nat \<Rightarrow> subject list \<Rightarrow>
     ((error \<times> globals) + (subject list \<times> allocation list \<times> globals)) option" where
  "run depth subjects = percolate depth subjects (map Allocation subjects) init_globals"

text \<open>
  The numbers of the last line printed: schedules created, of which incomplete, and
  duplicates.
\<close>

definition summary :: "globals \<Rightarrow> nat \<times> nat \<times> nat" where
  "summary g =
     (length (saved_schedules g), length (filter is_incomplete (saved_schedules g)),
      duplicates g)"

section \<open>The materializer as the specification words it\<close>

text \<open>
  The specification describes the materializer as two passes of requests over an
  initially empty grid. A request names a subject by its position, one of its slots,
  and whether it belongs to the fill pass, which skips a slot the subject already
  holds. Serving a request: when the slot's full range is free, write the subject's
  name into every tick of the range and mark the slot allocated for the subject;
  otherwise skip it.
\<close>

type_synonym request = "nat \<times> timeslot \<times> bool"

definition do_request ::
  "table \<times> subject list \<Rightarrow> request \<Rightarrow> error + (table \<times> subject list)" where
  "do_request st r =
     (case (st, r) of
        ((grid, subjects), (i, slot, only_unallocated)) \<Rightarrow>
          if only_unallocated \<and> slot \<in> allocated_times (subjects ! i) then Inr (grid, subjects)
          else
            (case is_free grid slot of
               Inl e \<Rightarrow> Inl e
             | Inr free \<Rightarrow>
                 if free
                 then Inr (fill grid (name (subjects ! i)) slot,
                           subjects[i := mark_allocated (subjects ! i) slot])
                 else Inr (grid, subjects)))"

fun run_requests ::
  "request list \<Rightarrow> table \<times> subject list \<Rightarrow> error + (table \<times> subject list)" where
  "run_requests [] st = Inr st"
| "run_requests (r # rs) st =
     (case do_request st r of Inl e \<Rightarrow> Inl e | Inr st' \<Rightarrow> run_requests rs st')"

text \<open>
  The first-come pass: subjects in list order, each subject's slots in declaration
  order, the slots its selection vector selects.
\<close>

definition first_come_requests :: "subject list \<Rightarrow> bool list list \<Rightarrow> request list" where
  "first_come_requests subjects combination =
     concat (map (\<lambda>i. map (\<lambda>j. (i, times_list (subjects ! i) ! j, False))
                         (filter (\<lambda>j. combination ! i ! j)
                            [0..<length (times_list (subjects ! i))]))
               [0..<length subjects])"

text \<open>
  The fill pass: every FillAll subject (\<open>VO\<close>), in list order, asks for each of its
  slots in declaration order; the selection vectors play no part.
\<close>

definition fill_requests :: "subject list \<Rightarrow> request list" where
  "fill_requests subjects =
     concat (map (\<lambda>i. if type (subjects ! i) = VO
                       then map (\<lambda>slot. (i, slot, True)) (times_list (subjects ! i))
                       else [])
               [0..<length subjects])"

definition spec_materialize ::
  "subject list \<Rightarrow> bool list list \<Rightarrow> error + (table \<times> subject list)" where
  "spec_materialize subjects combination =
     run_requests (first_come_requests subjects combination @ fill_requests subjects)
       (empty_schedule, subjects)"

section \<open>Notions used in the statements\<close>

text \<open>
  The cursors of a run: one per subject, in order, each holding the list
  \<open>Allocation\<close> built for its subject and standing inside it.
\<close>

definition cursors_for :: "subject list \<Rightarrow> allocation list \<Rightarrow> bool" where
  "cursors_for subjects allocations =
     list_all2 (\<lambda>s a. private_array a = private_array (Allocation s) \<and>
                       index a < length (private_array a))
       subjects allocations"

text \<open>The tuple a cursor stands on.\<close>

definition current :: "allocation \<Rightarrow> bool list" where
  "current a = private_array a ! index a"

text \<open>
  A run of guarded writes for one subject: with the flag set, a slot already allocated
  is passed over, as in the second pass.
\<close>

fun attempts :: "bool \<Rightarrow> timeslot list \<Rightarrow> table \<Rightarrow> subject \<Rightarrow> error + (table \<times> subject)" where
  "attempts c [] g s = Inr (g, s)"
| "attempts c (sl # sls) g s =
     (if c \<and> sl \<in> allocated_times s then attempts c sls g s
      else (case try_allocate g s sl of Inl e \<Rightarrow> Inl e
            | Inr (g', s') \<Rightarrow> attempts c sls g' s'))"

text \<open>What the solver never changes in a subject.\<close>

definition static :: "subject \<Rightarrow> string \<times> timeslot list \<times> subject_type" where
  "static s = (name s, times_list s, type s)"

definition first_come_for :: "subject list \<Rightarrow> bool list list \<Rightarrow> nat \<Rightarrow> request list" where
  "first_come_for subjects combination i =
     map (\<lambda>j. (i, times_list (subjects ! i) ! j, False))
       (filter (\<lambda>j. combination ! i ! j) [0..<length (times_list (subjects ! i))])"

definition fill_for :: "subject list \<Rightarrow> nat \<Rightarrow> request list" where
  "fill_for subjects i =
     (if type (subjects ! i) = VO
      then map (\<lambda>slot. (i, slot, True)) (times_list (subjects ! i)) else [])"

text \<open>
  A table grows into another when every key stays a key and every tick that carries a
  name keeps it.
\<close>

definition grows :: "table \<Rightarrow> table \<Rightarrow> bool" where
  "grows g g' = (\<forall>t. (g t \<noteq> None \<longrightarrow> g' t \<noteq> None) \<and>
                     (\<forall>n. g t = Some n \<and> n \<noteq> [] \<longrightarrow> g' t = Some n))"

text \<open>A subject owns its allocated slots: each of their ticks carries its name.\<close>

definition owns :: "table \<Rightarrow> subject \<Rightarrow> bool" where
  "owns g s = (\<forall>sl \<in> allocated_times s. \<forall>t \<in> set (ticks sl). g t = Some (name s))"

text \<open>A request is served when its slot is allocated to its subject or is not free.\<close>

definition served :: "table \<times> subject list \<Rightarrow> request \<Rightarrow> bool" where
  "served st r = (case (st, r) of ((g, subjects), (i, sl, c)) \<Rightarrow>
      sl \<in> allocated_times (subjects ! i) \<or> is_free g sl = Inr False)"

text \<open>The keys of the empty schedule, and the slots all of whose ticks are such keys.\<close>

definition in_grid :: "time \<Rightarrow> bool" where
  "in_grid t = (day0 \<le> t div 1440 \<and> t div 1440 < day0 + 5 \<and>
     start_of_day \<le> t mod 1440 div 60 \<and> t mod 1440 div 60 < end_of_day \<and> 5 dvd t)"

definition slot_in_grid :: "timeslot \<Rightarrow> bool" where
  "slot_in_grid sl = list_all in_grid (ticks sl)"

text \<open>The globals a call of \<open>percolate\<close> leaves, returned or raised.\<close>

definition globals_of ::
  "(error \<times> globals) + (subject list \<times> allocation list \<times> globals) \<Rightarrow> globals" where
  "globals_of r = (case r of Inl (e, g) \<Rightarrow> g | Inr (subjects, allocations, g) \<Rightarrow> g)"

text \<open>
  The result store of \<open>g\<close> seen from an earlier state \<open>g0\<close> of the run: its tables are
  pairwise distinct, and it is the store of \<open>g0\<close> followed by the schedules accepted
  since, each counted once by \<open>version\<close>.
\<close>

definition store_ok :: "globals \<Rightarrow> globals \<Rightarrow> bool" where
  "store_ok g0 g =
     (distinct (map table (saved_schedules g)) \<and>
      (\<exists>new. saved_schedules g = saved_schedules g0 @ new \<and>
             version g = version g0 + length new))"


section \<open>Serving a request in the specification's words\<close>

text \<open>
  The specification's wording of the materializer, written without the code's
  \<^verbatim>\<open>is_free\<close>, \<^verbatim>\<open>fill\<close> and table constructor. The range of a slot is the list of its
  ticks: the times from its start, inclusive, to its end, exclusive, in steps of five
  minutes. The range is free in a grid when every tick of it is a cell of the grid that
  carries no name. Writing a name into the range gives every tick of it that name and
  leaves every other cell as it is.
\<close>

definition slot_range :: "timeslot \<Rightarrow> time list" where
  "slot_range slot = filter (\<lambda>t. 5 dvd (t - fst slot)) [fst slot..<snd slot]"

definition range_free :: "table \<Rightarrow> timeslot \<Rightarrow> bool" where
  "range_free grid slot = list_all (\<lambda>t. grid t = Some []) (slot_range slot)"

definition write_range :: "table \<Rightarrow> string \<Rightarrow> timeslot \<Rightarrow> table" where
  "write_range grid nm slot = (\<lambda>t. if t \<in> set (slot_range slot) then Some nm else grid t)"

text \<open>
  Serving a request: a fill request for a slot the subject already holds is passed
  over; otherwise, when the slot's full range is free, the subject's name is written
  into every tick of the range and the slot is marked allocated for the subject;
  otherwise the slot is skipped whole, and grid and subjects stay as they are.
\<close>

definition serve :: "table \<times> subject list \<Rightarrow> request \<Rightarrow> table \<times> subject list" where
  "serve st r =
     (case (st, r) of
        ((grid, subjects), (i, slot, only_unallocated)) \<Rightarrow>
          if only_unallocated \<and> slot \<in> allocated_times (subjects ! i) then (grid, subjects)
          else if range_free grid slot
          then (write_range grid (name (subjects ! i)) slot,
                subjects[i := (subjects ! i)
                   \<lparr>allocated_times := insert slot (allocated_times (subjects ! i))\<rparr>])
          else (grid, subjects))"

text \<open>
  The initially empty grid: a cell without a name for every tick of the week's grid,
  Monday to Friday from 8:00 to 20:00, and no other cell.
\<close>

definition empty_grid :: table where
  "empty_grid = (\<lambda>t. if in_grid t then Some [] else None)"

text \<open>
  The two passes: the requests of the first-come pass, then those of the fill pass,
  served one after the other from the empty grid.
\<close>

definition two_passes :: "subject list \<Rightarrow> bool list list \<Rightarrow> table \<times> subject list" where
  "two_passes subjects combination =
     foldl serve (empty_grid, subjects)
       (first_come_requests subjects combination @ fill_requests subjects)"

text \<open>Subjects all of whose slots lie on the week's grid, tick by tick.\<close>

definition slots_on_grid :: "subject list \<Rightarrow> bool" where
  "slots_on_grid subjects =
     list_all (\<lambda>s. list_all (\<lambda>slot. list_all in_grid (slot_range slot)) (times_list s)) subjects"

section \<open>The traversal without the evaluation\<close>

text \<open>
  Subjects as the parser hands them to the solver, with slots on the grid: nothing is
  allocated yet.
\<close>

definition well_formed :: "subject list \<Rightarrow> bool" where
  "well_formed subjects =
     list_all (\<lambda>s. allocated_times s = {} \<and> list_all slot_in_grid (times_list s)) subjects"

text \<open>
  The moves \<open>percolate\<close> makes on the cursors, with the evaluation of the candidate
  left out: the same flag check, the same memo of the combinations met, the same loop
  of \<open>advance\<close>, recursive call and \<open>reverse\<close>. It carries the memo and the list of the
  combinations for which \<open>percolate\<close> builds a schedule, in the order of the calls.
  For well-formed subjects \<open>percolate\<close> is shown below to make exactly these moves.
\<close>

fun walk ::
  "nat \<Rightarrow> allocation list \<Rightarrow> bool list list set \<Rightarrow> bool list list list \<Rightarrow>
     (allocation list \<times> bool list list set \<times> bool list list list) option"
and walk_loop ::
  "nat \<Rightarrow> nat list \<Rightarrow> allocation list \<Rightarrow> bool list list set \<Rightarrow> bool list list list \<Rightarrow>
     (allocation list \<times> bool list list set \<times> bool list list list) option" where
  "walk 0 allocations seen visited = None"
| "walk (Suc depth) allocations seen visited =
     (case reset_first_reached_end allocations of
        Some allocations' \<Rightarrow> Some (allocations', seen, visited)
      | None \<Rightarrow>
          (case perm_check allocations of
             Inl e \<Rightarrow> None
           | Inr perm \<Rightarrow>
               if perm \<in> seen then Some (allocations, seen, visited)
               else walk_loop depth [0..<length allocations] allocations
                      (insert perm seen) (visited @ [perm])))"
| "walk_loop depth [] allocations seen visited = Some (allocations, seen, visited)"
| "walk_loop depth (i # is) allocations seen visited =
     (case walk depth (allocations[i := advance (allocations ! i)]) seen visited of
        None \<Rightarrow> None
      | Some (allocations', seen', visited') \<Rightarrow>
          walk_loop depth is (allocations'[i := reverse (allocations' ! i)]) seen' visited')"

section \<open>Example inputs\<close>

text \<open>
  A Monday slot from 8:00 to 9:00, the adjacent one from 9:00 to 10:00 and a Tuesday
  slot from 8:00 to 9:00; a tutorial with the two Monday alternatives and a lecture
  with the first Monday slot and the Tuesday slot; a cursor standing on the last of
  two tuples.
\<close>

definition mo_8_9 :: timeslot where
  "mo_8_9 = (datetime 2 8 0, datetime 2 9 0)"

definition mo_9_10 :: timeslot where
  "mo_9_10 = (datetime 2 9 0, datetime 2 10 0)"

definition di_8_9 :: timeslot where
  "di_8_9 = (datetime 3 8 0, datetime 3 9 0)"

definition tutorial :: subject where
  "tutorial = \<lparr>name = ''tutorial'', times_list = [mo_8_9, mo_9_10], type = UE,
               allocated_times = {}\<rparr>"

definition lecture :: subject where
  "lecture = \<lparr>name = ''lecture'', times_list = [mo_8_9, di_8_9], type = VO,
              allocated_times = {}\<rparr>"

definition cursor_at_last :: allocation where
  "cursor_at_last = \<lparr>index = 1, has_reached_end = False,
                     private_array = [[True, False], [False, True]]\<rparr>"

text \<open>
  The two subjects together, with the tutorial's cursor on its second tuple (the slot
  from 9:00) and the lecture's cursor on its third tuple, which selects the Tuesday
  slot only; the table and the allocated sets the two passes then produce.
\<close>

definition timetable :: "subject list" where
  "timetable = [tutorial, lecture]"

definition cursors_b :: "allocation list" where
  "cursors_b = [(Allocation tutorial)\<lparr>index := 1\<rparr>, (Allocation lecture)\<lparr>index := 2\<rparr>]"

definition table_b :: table where
  "table_b = fill (fill (fill empty_schedule ''tutorial'' mo_9_10) ''lecture'' di_8_9)
               ''lecture'' mo_8_9"

definition timetable_b :: "subject list" where
  "timetable_b = [mark_allocated tutorial mo_9_10,
                  mark_allocated (mark_allocated lecture di_8_9) mo_8_9]"

text \<open>
  A seminar with the Tuesday slot as its only slot, the schedule and the globals its
  run produces, and a subject whose definition file lists no slot.
\<close>

definition seminar :: subject where
  "seminar = \<lparr>name = ''seminar'', times_list = [di_8_9], type = VO, allocated_times = {}\<rparr>"

definition seminar_schedule :: schedule where
  "seminar_schedule = \<lparr>table = Some (fill empty_schedule ''seminar'' di_8_9),
                        is_incomplete = False\<rparr>"

definition seminar_globals :: globals where
  "seminar_globals = \<lparr>version = 1, duplicates = 0, saved_schedules = [seminar_schedule],
                       permutations = {[[True]]}, evaluated = [[[True]]]\<rparr>"

definition no_slots :: subject where
  "no_slots = \<lparr>name = ''empty'', times_list = [], type = UE, allocated_times = {}\<rparr>"


text \<open>
  A Monday slot from 8:00 to 10:00, which overlaps the tutorial's second slot, and a
  block course with this slot and the Tuesday slot; the tutorial's cursor on its second
  tuple and the block course's cursor on its first tuple, which selects both slots.
\<close>

definition mo_8_10 :: timeslot where
  "mo_8_10 = (datetime 2 8 0, datetime 2 10 0)"

definition block :: subject where
  "block = \<lparr>name = ''block'', times_list = [mo_8_10, di_8_9], type = VO,
            allocated_times = {}\<rparr>"

definition clash :: "subject list" where
  "clash = [tutorial, block]"

definition cursors_c :: "allocation list" where
  "cursors_c = [(Allocation tutorial)\<lparr>index := 1\<rparr>, Allocation block]"

text \<open>
  The run of the lecture alone: its three tuples give the same table, so the first
  candidate is stored and the other two are duplicates. The schedule stored, the
  lecture's cursor at a position, the globals when the second candidate is evaluated,
  and the globals the run ends with.
\<close>

definition lecture_schedule :: schedule where
  "lecture_schedule =
     \<lparr>table = Some (fill (fill empty_schedule ''lecture'' mo_8_9) ''lecture'' di_8_9),
      is_incomplete = False\<rparr>"

definition lecture_cursor :: "nat \<Rightarrow> allocation" where
  "lecture_cursor k = (Allocation lecture)\<lparr>index := k\<rparr>"

definition lecture_stored :: globals where
  "lecture_stored =
     \<lparr>version = 1, duplicates = 0, saved_schedules = [lecture_schedule],
      permutations = {[[True, False]], [[True, True]]},
      evaluated = [[[True, True]], [[True, False]]]\<rparr>"

definition lecture_globals :: globals where
  "lecture_globals =
     \<lparr>version = 1, duplicates = 2, saved_schedules = [lecture_schedule],
      permutations = {[[False, True]], [[True, False]], [[True, True]]},
      evaluated = [[[True, True]], [[True, False]], [[False, True]]]\<rparr>"

text \<open>
  Three tutorials with four, three and three one-hour slots on Monday, Tuesday and
  Wednesday, and the combination of the first slot of the first, the third slot of the
  second and the first slot of the third.
\<close>

definition analysis :: subject where
  "analysis = \<lparr>name = ''analysis'',
                times_list = [(datetime 2 8 0, datetime 2 9 0), (datetime 2 9 0, datetime 2 10 0),
                              (datetime 2 10 0, datetime 2 11 0), (datetime 2 11 0, datetime 2 12 0)],
                type = UE, allocated_times = {}\<rparr>"

definition algebra :: subject where
  "algebra = \<lparr>name = ''algebra'',
               times_list = [(datetime 3 8 0, datetime 3 9 0), (datetime 3 9 0, datetime 3 10 0),
                             (datetime 3 10 0, datetime 3 11 0)],
               type = UE, allocated_times = {}\<rparr>"

definition physics :: subject where
  "physics = \<lparr>name = ''physics'',
               times_list = [(datetime 4 8 0, datetime 4 9 0), (datetime 4 9 0, datetime 4 10 0),
                             (datetime 4 10 0, datetime 4 11 0)],
               type = UE, allocated_times = {}\<rparr>"

definition three_tutorials :: "subject list" where
  "three_tutorials = [analysis, algebra, physics]"

definition skipped_combination :: "bool list list" where
  "skipped_combination = [[True, False, False, False], [False, False, True], [True, False, False]]"

section \<open>The enumerator\<close>

lemma set_product_repeat:
  "set (product_repeat xs n) = {v. length v = n \<and> set v \<subseteq> set xs}"
proof (induction n)
  case 0
  then show ?case by auto
next
  case (Suc n)
  show ?case
  proof (rule set_eqI)
    fix v :: "'a list"
    show "v \<in> set (product_repeat xs (Suc n)) \<longleftrightarrow> v \<in> {v. length v = Suc n \<and> set v \<subseteq> set xs}"
      using Suc by (cases v) auto
  qed
qed

lemma distinct_product_repeat:
  "distinct (product_repeat [True, False] n)"
  by (induction n) (auto simp: distinct_map)

lemma sum_bools_count: "sum_bools v = count_list v True"
  by (induction v) (auto simp: sum_bools_def)

text \<open>
  Claim C8. For a subject with \<open>n\<close> slots the enumerator starts at position 0 with the
  flag clear, and its list holds, without repetition, exactly the boolean \<open>n\<close>-tuples
  valid for the subject's kind: those with exactly one true entry for a tutorial
  (\<open>UE\<close>), those with at least one true entry for a lecture (\<open>VO\<close>). The list is a
  function of the kind and of \<open>n\<close> alone (the filtered output of
  \<open>product_repeat\<close>), so its order is the same in every run.
\<close>

theorem allocation_enumerates_valid_vectors:
  "index (Allocation s) = 0 \<and> \<not> has_reached_end (Allocation s) \<and>
   distinct (private_array (Allocation s)) \<and>
   set (private_array (Allocation s)) =
     {v. length v = length (times_list s) \<and>
         (case type s of UE \<Rightarrow> count_list v True = 1 | VO \<Rightarrow> True \<in> set v)}"
  by (cases "type s")
     (auto simp: Allocation_def distinct_product_repeat set_product_repeat
        sum_bools_count any_true_def)

theorem allocation_enumerates_valid_vectors_witness:
  "index (Allocation tutorial) = 0 \<and> \<not> has_reached_end (Allocation tutorial) \<and>
   distinct (private_array (Allocation tutorial)) \<and>
   set (private_array (Allocation tutorial)) =
     {v. length v = length (times_list tutorial) \<and>
         (case type tutorial of UE \<Rightarrow> count_list v True = 1 | VO \<Rightarrow> True \<in> set v)}"
  by (rule allocation_enumerates_valid_vectors)

section \<open>The cursor\<close>

text \<open>
  Claim C9. For a cursor over a non-empty list that stands on the last entry,
  \<open>advance\<close> sets the flag and changes nothing else: the position and the tuple read
  are the same before and after. Clearing the flag afterwards gives the cursor with
  the flag clear, again at the same position and reading the same tuple.
\<close>

theorem advance_at_end:
  assumes "private_array a \<noteq> []" and "index a = length (private_array a) - 1"
  shows "advance a = a\<lparr>has_reached_end := True\<rparr> \<and>
         index (advance a) = index a \<and>
         get_array (advance a) = get_array a \<and>
         get_array a = Inr (last (private_array a)) \<and>
         reset_end_status (advance a) = a\<lparr>has_reached_end := False\<rparr> \<and>
         index (reset_end_status (advance a)) = index a \<and>
         get_array (reset_end_status (advance a)) = get_array a"
  using assms by (auto simp: advance_def get_array_def reset_end_status_def last_conv_nth)

theorem advance_at_end_witness:
  "private_array cursor_at_last \<noteq> [] \<and>
   index cursor_at_last = length (private_array cursor_at_last) - 1 \<and>
   advance cursor_at_last = cursor_at_last\<lparr>has_reached_end := True\<rparr> \<and>
   index (advance cursor_at_last) = index cursor_at_last \<and>
   get_array (advance cursor_at_last) = get_array cursor_at_last \<and>
   get_array cursor_at_last = Inr (last (private_array cursor_at_last)) \<and>
   reset_end_status (advance cursor_at_last) = cursor_at_last\<lparr>has_reached_end := False\<rparr> \<and>
   index (reset_end_status (advance cursor_at_last)) = index cursor_at_last \<and>
   get_array (reset_end_status (advance cursor_at_last)) = get_array cursor_at_last"
proof -
  have h1: "private_array cursor_at_last \<noteq> []"
    by (simp add: cursor_at_last_def)
  have h2: "index cursor_at_last = length (private_array cursor_at_last) - 1"
    by (simp add: cursor_at_last_def)
  show ?thesis
    using h1 h2 advance_at_end[OF h1 h2] by blast
qed

section \<open>Free ranges and fills\<close>

lemma ticks_step: "t < e \<Longrightarrow> ticks (t, e) = t # ticks (t + 5, e)"
  by (subst ticks.simps) simp

lemma ticks_done: "\<not> t < e \<Longrightarrow> ticks (t, e) = []"
  by (subst ticks.simps) simp

lemma fill_step: "t < e \<Longrightarrow> fill g n (t, e) = fill (g(t \<mapsto> n)) n (t + 5, e)"
  by (subst fill.simps) simp

lemma fill_done: "\<not> t < e \<Longrightarrow> fill g n (t, e) = g"
  by (subst fill.simps) simp

lemma is_free_step:
  "t < e \<Longrightarrow> is_free g (t, e) =
     (case g t of None \<Rightarrow> Inl KeyError
      | Some v \<Rightarrow> if v \<noteq> [] then Inr False else is_free g (t + 5, e))"
  by (subst is_free.simps) simp

lemma is_free_done: "\<not> t < e \<Longrightarrow> is_free g (t, e) = Inr True"
  by (subst is_free.simps) simp

lemma ticks_iff: "t \<in> set (ticks (a, b)) \<longleftrightarrow> a \<le> t \<and> t < b \<and> 5 dvd (t - a)"
proof (induction "(a, b)" arbitrary: a rule: ticks.induct)
  case (1 a)
  show ?case
  proof (cases "a < b")
    case True
    have "t \<in> set (ticks (a, b)) \<longleftrightarrow> t = a \<or> t \<in> set (ticks (a + 5, b))"
      using True by (simp add: ticks_step)
    also have "\<dots> \<longleftrightarrow> t = a \<or> (a + 5 \<le> t \<and> t < b \<and> 5 dvd (t - (a + 5)))"
      using 1[OF True] by simp
    also have "\<dots> \<longleftrightarrow> a \<le> t \<and> t < b \<and> 5 dvd (t - a)"
      using True by presburger
    finally show ?thesis .
  next
    case False
    then show ?thesis by (simp add: ticks_done)
  qed
qed

lemma fill_apply: "fill g n sl t = (if t \<in> set (ticks sl) then Some n else g t)"
proof (induction g n sl rule: fill.induct)
  case (1 schedule nm a e)
  show ?case
  proof (cases "a < e")
    case True
    have ih: "fill (schedule(a \<mapsto> nm)) nm (a + 5, e) t =
        (if t \<in> set (ticks (a + 5, e)) then Some nm else (schedule(a \<mapsto> nm)) t)"
      by (rule 1[OF True])
    have "a \<notin> set (ticks (a + 5, e))" by (simp add: ticks_iff)
    then show ?thesis
      unfolding fill_step[OF True] ticks_step[OF True] ih by auto
  next
    case False
    then show ?thesis by (simp add: fill_done ticks_done)
  qed
qed

lemma is_free_cong_ticks:
  "(\<And>t. t \<in> set (ticks sl) \<Longrightarrow> g t = g' t) \<Longrightarrow> is_free g sl = is_free g' sl"
proof (induction g sl rule: is_free.induct)
  case (1 schedule a e)
  show ?case
  proof (cases "a < e")
    case True
    have a: "schedule a = g' a" using 1(2)[of a] True by (simp add: ticks_step)
    have r: "\<And>t. t \<in> set (ticks (a + 5, e)) \<Longrightarrow> schedule t = g' t"
      using 1(2) True by (simp add: ticks_step)
    show ?thesis
    proof (cases "g' a")
      case None
      then show ?thesis using a True by (simp add: is_free_step)
    next
      case (Some v)
      show ?thesis
      proof (cases "v = []")
        case True2: True
        have "is_free schedule (a + 5, e) = is_free g' (a + 5, e)"
          using 1(1)[OF True, of v] a Some True2 r by auto
        then show ?thesis using a True Some True2 by (simp add: is_free_step)
      next
        case False
        then show ?thesis using a True Some by (simp add: is_free_step)
      qed
    qed
  next
    case False
    then show ?thesis by (simp add: is_free_done)
  qed
qed

lemma is_free_True_iff:
  "is_free g sl = Inr True \<longleftrightarrow> (\<forall>t \<in> set (ticks sl). g t = Some [])"
proof (induction g sl rule: is_free.induct)
  case (1 schedule a e)
  show ?case
  proof (cases "a < e")
    case True
    show ?thesis
    proof (cases "schedule a")
      case None
      then show ?thesis using True by (simp add: is_free_step ticks_step)
    next
      case (Some v)
      then show ?thesis using True 1[OF True Some]
        by (auto simp add: is_free_step ticks_step)
    qed
  next
    case False
    then show ?thesis by (simp add: is_free_done ticks_done)
  qed
qed

text \<open>
  Claim C10. Slots are half-open: the ticks of a slot \<open>(a, b)\<close> run from \<open>a\<close>
  inclusive in steps of five minutes and stay below \<open>b\<close>; the freeness check reads
  exactly these ticks and the fill writes exactly these ticks. Hence, for a slot that
  ends where another begins, filling either one does not change the answer of the
  freeness check for the other: the two never conflict.
\<close>

theorem adjacent_slots_do_not_conflict:
  "set (ticks (a, b)) = {t. a \<le> t \<and> t < b \<and> 5 dvd (t - a)} \<and>
   (is_free g (a, b) = Inr True \<longleftrightarrow> (\<forall>t \<in> set (ticks (a, b)). g t = Some [])) \<and>
   fill g n (a, b) = (\<lambda>t. if t \<in> set (ticks (a, b)) then Some n else g t) \<and>
   is_free (fill g n (a, b)) (b, c) = is_free g (b, c) \<and>
   is_free (fill g n (b, c)) (a, b) = is_free g (a, b)"
proof -
  have 1: "set (ticks (a, b)) = {t. a \<le> t \<and> t < b \<and> 5 dvd (t - a)}"
    by (auto simp: ticks_iff)
  have 3: "fill g n (a, b) = (\<lambda>t. if t \<in> set (ticks (a, b)) then Some n else g t)"
    by (rule ext) (rule fill_apply)
  have 4: "is_free (fill g n (a, b)) (b, c) = is_free g (b, c)"
    by (rule is_free_cong_ticks) (auto simp: fill_apply ticks_iff)
  have 5: "is_free (fill g n (b, c)) (a, b) = is_free g (a, b)"
    by (rule is_free_cong_ticks) (auto simp: fill_apply ticks_iff)
  show ?thesis using 1 3 4 5 is_free_True_iff[of g "(a, b)"] by blast
qed

theorem adjacent_slots_do_not_conflict_witness:
  "is_free (fill empty_schedule ''tutorial'' (datetime 2 8 0, datetime 2 9 0))
       (datetime 2 9 0, datetime 2 10 0) =
     is_free empty_schedule (datetime 2 9 0, datetime 2 10 0) \<and>
   is_free (fill empty_schedule ''tutorial'' (datetime 2 9 0, datetime 2 10 0))
       (datetime 2 8 0, datetime 2 9 0) =
     is_free empty_schedule (datetime 2 8 0, datetime 2 9 0)"
  using adjacent_slots_do_not_conflict
    [of "datetime 2 8 0" "datetime 2 9 0" empty_schedule "''tutorial''" "datetime 2 10 0"]
  by blast

section \<open>The two passes as a sequence of requests\<close>

lemma second_pass_slots_attempts: "second_pass_slots sls g s = attempts True sls g s"
  by (induction sls arbitrary: g s) (auto split: sum.splits)

lemma first_pass_slots_attempts:
  assumes "i < length allocations" "get_array (allocations ! i) = Inr v"
    "\<forall>j \<in> set js. j < length v"
  shows "first_pass_slots allocations i js g s =
         attempts False (map (\<lambda>j. times_list s ! j) (filter (\<lambda>j. v ! j) js)) g s"
  using assms
proof (induction js arbitrary: g s)
  case Nil
  then show ?case by simp
next
  case (Cons j js)
  show ?case
  proof (cases "v ! j")
    case True
    show ?thesis
    proof (cases "try_allocate g s (times_list s ! j)")
      case (Inl e)
      then show ?thesis using Cons.prems True by simp
    next
      case (Inr p)
      obtain g' s' where p: "p = (g', s')" by (cases p)
      have t: "times_list s' = times_list s"
        using Inr p by (auto simp: try_allocate_def mark_allocated_def split: sum.splits if_splits)
      show ?thesis using Cons.prems True Inr p Cons.IH[of g' s'] t by simp
    qed
  next
    case False
    then show ?thesis using Cons by simp
  qed
qed

lemma attempts_requests:
  assumes "i < length subjects"
  shows "run_requests (map (\<lambda>sl. (i, sl, c)) sls) (g, subjects) =
         (case attempts c sls g (subjects ! i) of
            Inl e \<Rightarrow> Inl e
          | Inr (g', s') \<Rightarrow> Inr (g', subjects[i := s']))"
  using assms
proof (induction sls arbitrary: g subjects)
  case Nil
  then show ?case by simp
next
  case (Cons sl sls)
  show ?case
  proof (cases "c \<and> sl \<in> allocated_times (subjects ! i)")
    case True
    then show ?thesis using Cons by (simp add: do_request_def)
  next
    case False
    show ?thesis
    proof (cases "is_free g sl")
      case (Inl e)
      then show ?thesis using False by (auto simp add: do_request_def try_allocate_def)
    next
      case (Inr b)
      show ?thesis
      proof (cases b)
        case True
        let ?s' = "mark_allocated (subjects ! i) sl"
        let ?subs = "subjects[i := ?s']"
        have l: "i < length ?subs" using Cons.prems by simp
        have "run_requests (map (\<lambda>sl. (i, sl, c)) (sl # sls)) (g, subjects) =
              run_requests (map (\<lambda>sl. (i, sl, c)) sls) (fill g (name (subjects ! i)) sl, ?subs)"
          using False Inr True by (auto simp add: do_request_def)
        also have "\<dots> = (case attempts c sls (fill g (name (subjects ! i)) sl) (?subs ! i) of
            Inl e \<Rightarrow> Inl e
          | Inr (g', s') \<Rightarrow> Inr (g', ?subs[i := s']))"
          by (rule Cons.IH[OF l])
        also have "\<dots> = (case attempts c (sl # sls) g (subjects ! i) of
            Inl e \<Rightarrow> Inl e
          | Inr (g', s') \<Rightarrow> Inr (g', subjects[i := s']))"
          using False Inr True Cons.prems by (auto simp add: try_allocate_def split: sum.splits)
        finally show ?thesis .
      next
        case F: False
        then show ?thesis using False Inr Cons by (auto simp add: do_request_def try_allocate_def)
      qed
    qed
  qed
qed

lemma try_allocate_static:
  "try_allocate g s sl = Inr (g', s') \<Longrightarrow> static s' = static s"
  by (auto simp: try_allocate_def mark_allocated_def static_def split: sum.splits if_splits)

lemma attempts_static:
  "attempts c sls g s = Inr (g', s') \<Longrightarrow> static s' = static s"
proof (induction sls arbitrary: g s)
  case Nil
  then show ?case by simp
next
  case (Cons sl sls)
  then show ?case
    by (fastforce split: if_splits sum.splits dest: try_allocate_static)
qed

lemma run_requests_append:
  "run_requests (rs @ rs') st =
     (case run_requests rs st of Inl e \<Rightarrow> Inl e | Inr st' \<Rightarrow> run_requests rs' st')"
  by (induction rs arbitrary: st) (auto split: sum.splits)

lemma static_nth:
  "map static subjects = map static subjects0 \<Longrightarrow> i < length subjects0 \<Longrightarrow>
   static (subjects ! i) = static (subjects0 ! i)"
  by (metis length_map nth_map)

lemma static_update:
  assumes "map static subjects = map static subjects0" "i < length subjects0"
    "static s' = static (subjects ! i)"
  shows "map static (subjects[i := s']) = map static subjects0"
proof -
  have "map static (subjects[i := s']) = (map static subjects)[i := static (subjects ! i)]"
    using assms(3) by (simp add: map_update)
  also have "\<dots> = map static subjects"
    using assms(1,2) by (metis length_map list_update_id nth_map)
  finally show ?thesis using assms(1) by simp
qed

lemma first_pass_requests:
  assumes "length allocations = length subjects0"
    and "map static subjects = map static subjects0"
    and "\<forall>i \<in> set is. i < length subjects0 \<and> get_array (allocations ! i) = Inr (combination ! i) \<and>
           length (combination ! i) = length (times_list (subjects0 ! i))"
  shows "first_pass allocations is g subjects =
         run_requests (concat (map (first_come_for subjects0 combination) is)) (g, subjects)"
  using assms
proof (induction "is" arbitrary: g subjects)
  case Nil
  then show ?case by simp
next
  case (Cons i "is")
  let ?v = "combination ! i"
  have len: "length subjects = length subjects0"
    using Cons.prems(2) by (metis length_map)
  have i: "i < length subjects0" "get_array (allocations ! i) = Inr ?v"
    "length ?v = length (times_list (subjects0 ! i))"
    using Cons.prems(3) by auto
  have st: "static (subjects ! i) = static (subjects0 ! i)"
    using static_nth[OF Cons.prems(2) i(1)] .
  then have tl: "times_list (subjects ! i) = times_list (subjects0 ! i)"
    by (simp add: static_def)
  let ?sls = "map (\<lambda>j. times_list (subjects ! i) ! j)
                (filter (\<lambda>j. ?v ! j) [0..<length (times_list (subjects ! i))])"
  have fps: "first_pass_slots allocations i [0..<length (times_list (subjects ! i))] g (subjects ! i) =
        attempts False ?sls g (subjects ! i)"
    by (rule first_pass_slots_attempts) (use i Cons.prems(1) tl in auto)
  have rq: "first_come_for subjects0 combination i = map (\<lambda>sl. (i, sl, False)) ?sls"
    by (simp add: first_come_for_def tl comp_def)
  have rr: "run_requests (first_come_for subjects0 combination i) (g, subjects) =
        (case attempts False ?sls g (subjects ! i) of
            Inl e \<Rightarrow> Inl e
          | Inr (g', s') \<Rightarrow> Inr (g', subjects[i := s']))"
    unfolding rq by (rule attempts_requests) (use i len in simp)
  show ?case
  proof (cases "attempts False ?sls g (subjects ! i)")
    case (Inl e)
    then show ?thesis using fps rr by (simp add: run_requests_append)
  next
    case (Inr p)
    obtain g' s' where p: "p = (g', s')" by (cases p)
    have s': "static s' = static (subjects ! i)"
      using attempts_static Inr p by blast
    have ih: "first_pass allocations is g' (subjects[i := s']) =
        run_requests (concat (map (first_come_for subjects0 combination) is)) (g', subjects[i := s'])"
      by (rule Cons.IH[OF Cons.prems(1) static_update[OF Cons.prems(2) i(1) s']])
         (use Cons.prems(3) in auto)
    show ?thesis using fps rr Inr p ih by (simp add: run_requests_append)
  qed
qed

lemma second_pass_requests:
  assumes "map static subjects = map static subjects0" "k \<le> length subjects0"
  shows "run_requests (concat (map (fill_for subjects0) [k..<length subjects0])) (g, subjects) =
         (case second_pass g (drop k subjects) of
            Inl e \<Rightarrow> Inl e
          | Inr (g', ss') \<Rightarrow> Inr (g', take k subjects @ ss'))"
  using assms
proof (induction "length subjects0 - k" arbitrary: k g subjects)
  case 0
  then have "k = length subjects0" by simp
  moreover have "length subjects = length subjects0" using 0(2) by (metis length_map)
  ultimately show ?case by simp
next
  case (Suc d)
  have len: "length subjects = length subjects0" using Suc(3) by (metis length_map)
  have k: "k < length subjects0" using Suc(2) by simp
  have upt: "[k..<length subjects0] = k # [Suc k..<length subjects0]"
    using k by (simp add: upt_conv_Cons)
  have drop: "drop k subjects = subjects ! k # drop (Suc k) subjects"
    using k len by (simp add: Cons_nth_drop_Suc)
  have st: "static (subjects ! k) = static (subjects0 ! k)"
    using static_nth[OF Suc(3) k] .
  let ?s = "subjects ! k"
  have rq: "fill_for subjects0 k =
      (if type ?s = VO then map (\<lambda>sl. (k, sl, True)) (times_list ?s) else [])"
    using st by (simp add: fill_for_def static_def)
  let ?one = "if type ?s = VO then second_pass_slots (times_list ?s) g ?s else Inr (g, ?s)"
  have rr: "run_requests (fill_for subjects0 k) (g, subjects) =
      (case ?one of Inl e \<Rightarrow> Inl e | Inr (g', s') \<Rightarrow> Inr (g', subjects[k := s']))"
    using attempts_requests[of k subjects True "times_list ?s" g] k len
    by (simp add: rq second_pass_slots_attempts)
  show ?case
  proof (cases ?one)
    case (Inl e)
    then show ?thesis using rr unfolding upt drop
      by (simp add: run_requests_append)
  next
    case (Inr p)
    obtain g' s' where p: "p = (g', s')" by (cases p)
    have s': "static s' = static ?s"
      using Inr p attempts_static[of True "times_list ?s" g ?s g' s']
      by (auto simp: second_pass_slots_attempts split: if_splits)
    let ?subs = "subjects[k := s']"
    have ih: "run_requests (concat (map (fill_for subjects0) [Suc k..<length subjects0])) (g', ?subs) =
         (case second_pass g' (drop (Suc k) ?subs) of
            Inl e \<Rightarrow> Inl e
          | Inr (g'', ss') \<Rightarrow> Inr (g'', take (Suc k) ?subs @ ss'))"
      by (rule Suc(1)[OF _ static_update[OF Suc(3) k s']]) (use Suc(2) k in auto)
    have d: "drop (Suc k) ?subs = drop (Suc k) subjects" by simp
    have t: "take (Suc k) ?subs = take k subjects @ [s']"
      using k len by (simp add: take_Suc_conv_app_nth)
    show ?thesis
      unfolding upt drop using rr Inr p ih d t
      by (auto simp add: run_requests_append split: sum.splits)
  qed
qed

lemma cursors_for_nth:
  assumes "cursors_for subjects allocations" "i < length subjects"
  shows "get_array (allocations ! i) = Inr (current (allocations ! i))"
    and "current (allocations ! i) \<in> set (private_array (Allocation (subjects ! i)))"
  using assms
  by (auto simp: cursors_for_def list_all2_conv_all_nth get_array_def current_def)

lemma Allocation_length:
  "v \<in> set (private_array (Allocation s)) \<Longrightarrow> length v = length (times_list s)"
  by (auto simp: Allocation_def set_product_repeat split: if_splits)

lemma static_update_same:
  assumes "static s' = static (subjects ! i)"
  shows "map static (subjects[i := s']) = map static subjects"
proof (cases "i < length subjects")
  case True
  have "map static (subjects[i := s']) = (map static subjects)[i := map static subjects ! i]"
    using assms True by (simp add: map_update)
  then show ?thesis by (simp only: list_update_id)
next
  case False
  then have "subjects[i := s'] = subjects" by (simp add: list_update_beyond)
  then show ?thesis by simp
qed

lemma do_request_static:
  assumes "do_request (g, subjects) r = Inr (g1, s1)"
  shows "map static s1 = map static subjects"
proof -
  obtain i sl c where r: "r = (i, sl, c)" by (cases r)
  have m: "static (mark_allocated (subjects ! i) sl) = static (subjects ! i)"
    by (simp add: static_def mark_allocated_def)
  have "s1 = subjects \<or> s1 = subjects[i := mark_allocated (subjects ! i) sl]"
    using assms r by (auto simp: do_request_def split: if_splits sum.splits)
  then show ?thesis using static_update_same[OF m] by auto
qed

lemma run_requests_static:
  "run_requests rs (g, subjects) = Inr (g', subjects') \<Longrightarrow>
   map static subjects' = map static subjects"
proof (induction rs arbitrary: g subjects)
  case Nil
  then show ?case by simp
next
  case (Cons r rs)
  obtain i sl c where r: "r = (i, sl, c)" by (cases r)
  from Cons.prems obtain g1 s1 where d: "do_request (g, subjects) r = Inr (g1, s1)"
    and rest: "run_requests rs (g1, s1) = Inr (g', subjects')"
    by (auto split: sum.splits)
  have "map static s1 = map static subjects"
    using d by (rule do_request_static)
  then show ?case using Cons.IH[OF rest] by simp
qed

lemma materialize_requests:
  assumes "cursors_for subjects allocations"
  shows "materialize subjects allocations = spec_materialize subjects (map current allocations)"
proof -
  have len: "length allocations = length subjects"
    using assms by (simp add: cursors_for_def list_all2_lengthD)
  have fp: "first_pass allocations [0..<length subjects] empty_schedule subjects =
      run_requests (first_come_requests subjects (map current allocations)) (empty_schedule, subjects)"
    unfolding first_come_requests_def
    using first_pass_requests[of allocations subjects subjects "[0..<length subjects]"
        "map current allocations" empty_schedule]
      cursors_for_nth[OF assms] Allocation_length len
    by (simp add: first_come_for_def[abs_def])
  show ?thesis
  proof (cases "run_requests (first_come_requests subjects (map current allocations))
                  (empty_schedule, subjects)")
    case (Inl e)
    then show ?thesis
      using fp by (simp add: materialize_def spec_materialize_def run_requests_append)
  next
    case (Inr p)
    obtain g1 s1 where p: "p = (g1, s1)" by (cases p)
    have st: "map static s1 = map static subjects"
      using run_requests_static Inr p by blast
    have "run_requests (fill_requests subjects) (g1, s1) =
          (case second_pass g1 s1 of Inl e \<Rightarrow> Inl e | Inr (g', ss') \<Rightarrow> Inr (g', ss'))"
      using second_pass_requests[OF st, of 0 g1]
      by (simp add: fill_requests_def fill_for_def[abs_def] split: sum.splits)
    then show ?thesis
      using fp Inr p
      by (auto simp add: materialize_def spec_materialize_def run_requests_append
          split: sum.splits)
  qed
qed

lemma grows_refl: "grows g g"
  by (simp add: grows_def)

lemma grows_trans: "grows g g' \<Longrightarrow> grows g' g'' \<Longrightarrow> grows g g''"
  unfolding grows_def by blast

lemma grows_fill: "is_free g sl = Inr True \<Longrightarrow> grows g (fill g n sl)"
  unfolding grows_def by (auto simp: fill_apply is_free_True_iff)

lemma try_allocate_cases:
  assumes "try_allocate g s sl = Inr (g', s')"
  shows "(is_free g sl = Inr True \<and> g' = fill g (name s) sl \<and> s' = mark_allocated s sl) \<or>
         (is_free g sl = Inr False \<and> g' = g \<and> s' = s)"
  using assms by (auto simp: try_allocate_def split: sum.splits if_splits)

lemma try_allocate_grows:
  assumes "try_allocate g s sl = Inr (g', s')"
  shows "grows g g'"
  using try_allocate_cases[OF assms] by (auto simp: grows_fill grows_refl)

lemma do_request_cases:
  assumes "do_request (g, subjects) (i, sl, c) = Inr (g', subjects')"
  shows "(is_free g sl = Inr True \<and> g' = fill g (name (subjects ! i)) sl \<and>
          subjects' = subjects[i := mark_allocated (subjects ! i) sl] \<and>
          \<not> (c \<and> sl \<in> allocated_times (subjects ! i))) \<or>
         (g' = g \<and> subjects' = subjects \<and>
          (is_free g sl = Inr False \<or> sl \<in> allocated_times (subjects ! i)))"
  using assms by (auto simp: do_request_def split: sum.splits if_splits)

lemma do_request_grows:
  assumes "do_request (g, subjects) r = Inr (g', subjects')"
  shows "grows g g'"
proof -
  obtain i sl c where r: "r = (i, sl, c)" by (cases r)
  show ?thesis
    using do_request_cases[OF assms[unfolded r]] by (auto simp: grows_fill grows_refl)
qed

lemma run_requests_induct:
  assumes "run_requests rs st = Inr st'" and "P st"
    and "\<And>a r b. P a \<Longrightarrow> r \<in> set rs \<Longrightarrow> do_request a r = Inr b \<Longrightarrow> P b"
  shows "P st'"
  using assms
proof (induction rs arbitrary: st)
  case Nil
  then show ?case by simp
next
  case (Cons r rs)
  from Cons.prems(1) obtain st1 where d: "do_request st r = Inr st1"
    and rest: "run_requests rs st1 = Inr st'"
    by (auto split: sum.splits)
  have "r \<in> set (r # rs)" by simp
  with Cons.prems(2) have p1: "P st1" using d by (rule Cons.prems(3))
  show ?case
  proof (rule Cons.IH[OF rest p1])
    fix a r' b
    assume a: "P a" and r': "r' \<in> set rs" and b: "do_request a r' = Inr b"
    have "r' \<in> set (r # rs)" using r' by simp
    with a show "P b" using b by (rule Cons.prems(3))
  qed
qed

lemma run_requests_grows:
  assumes "run_requests rs (g, subjects) = Inr (g', subjects')"
  shows "grows g g'"
proof -
  have "grows g (fst (g', subjects'))"
  proof (rule run_requests_induct[OF assms, where P = "\<lambda>st. grows g (fst st)"])
    show "grows g (fst (g, subjects))" by (simp add: grows_refl)
  next
    fix a r b
    assume p: "grows g (fst a)" and d: "do_request a r = Inr b"
    obtain ga sa where a: "a = (ga, sa)" by (cases a)
    obtain gb sb where b: "b = (gb, sb)" by (cases b)
    show "grows g (fst b)"
      using grows_trans[OF _ do_request_grows[OF d[unfolded a b]]] p a b by simp
  qed
  then show ?thesis by simp
qed

lemma owns_grows: "owns g s \<Longrightarrow> name s \<noteq> [] \<Longrightarrow> grows g g' \<Longrightarrow> owns g' s"
  unfolding owns_def grows_def by blast

lemma owns_mark:
  assumes "owns g s" "name s \<noteq> []" "is_free g sl = Inr True"
  shows "owns (fill g (name s) sl) (mark_allocated s sl)"
proof -
  have "owns (fill g (name s) sl) s"
    using owns_grows[OF assms(1,2) grows_fill[OF assms(3)]] .
  then show ?thesis
    by (auto simp: owns_def mark_allocated_def fill_apply)
qed

lemma do_request_owns:
  assumes "do_request (g, subjects) r = Inr (g', subjects')"
    and "\<forall>s \<in> set subjects. name s \<noteq> [] \<and> owns g s"
    and "fst r < length subjects"
  shows "\<forall>s \<in> set subjects'. name s \<noteq> [] \<and> owns g' s"
proof -
  obtain i sl c where r: "r = (i, sl, c)" by (cases r)
  have i: "i < length subjects" using assms(3) r by simp
  from do_request_cases[OF assms(1)[unfolded r]] show ?thesis
  proof
    assume a: "is_free g sl = Inr True \<and> g' = fill g (name (subjects ! i)) sl \<and>
          subjects' = subjects[i := mark_allocated (subjects ! i) sl] \<and>
          \<not> (c \<and> sl \<in> allocated_times (subjects ! i))"
    have gr: "grows g g'" using a grows_fill by simp
    have si: "name (subjects ! i) \<noteq> [] \<and> owns g (subjects ! i)"
      using assms(2) i by simp
    have new: "owns g' (mark_allocated (subjects ! i) sl)"
      using a owns_mark si by simp
    have nn: "name (mark_allocated (subjects ! i) sl) \<noteq> []"
      using si by (simp add: mark_allocated_def)
    show ?thesis
    proof
      fix s assume "s \<in> set subjects'"
      then have "s = mark_allocated (subjects ! i) sl \<or> s \<in> set subjects"
        using a set_update_subset_insert[of subjects i] by auto
      then show "name s \<noteq> [] \<and> owns g' s"
        using new nn assms(2) owns_grows gr by blast
    qed
  next
    assume "g' = g \<and> subjects' = subjects \<and>
          (is_free g sl = Inr False \<or> sl \<in> allocated_times (subjects ! i))"
    then show ?thesis using assms(2) by simp
  qed
qed

lemma do_request_length:
  "do_request (g, subjects) r = Inr (g', subjects') \<Longrightarrow> length subjects' = length subjects"
  using do_request_static by (metis length_map)

lemma run_requests_owns:
  assumes "run_requests rs (g, subjects) = Inr (g', subjects')"
    and "\<forall>s \<in> set subjects. name s \<noteq> [] \<and> owns g s"
    and "\<forall>r \<in> set rs. fst r < length subjects"
  shows "\<forall>s \<in> set subjects'. name s \<noteq> [] \<and> owns g' s"
proof -
  let ?P = "\<lambda>st. length (snd st) = length subjects \<and>
                 (\<forall>s \<in> set (snd st). name s \<noteq> [] \<and> owns (fst st) s)"
  have "?P (g', subjects')"
  proof (rule run_requests_induct[OF assms(1), where P = ?P])
    show "?P (g, subjects)" using assms(2) by simp
  next
    fix a r b
    assume p: "?P a" and r: "r \<in> set rs" and d: "do_request a r = Inr b"
    obtain ga sa where a: "a = (ga, sa)" by (cases a)
    obtain gb sb where b: "b = (gb, sb)" by (cases b)
    have "fst r < length sa" using p r assms(3) a by simp
    then show "?P b"
      using do_request_owns[OF d[unfolded a b]] do_request_length[OF d[unfolded a b]] p a b
      by simp
  qed
  then show ?thesis by simp
qed

lemma do_request_bound:
  assumes "do_request (g, subjects) r = Inr (g', subjects')"
  shows "allocated_times (subjects' ! k) \<subseteq>
           allocated_times (subjects ! k) \<union> {sl. \<exists>c. r = (k, sl, c)}"
    and "allocated_times (subjects ! k) \<subseteq> allocated_times (subjects' ! k)"
proof -
  obtain i sl c where r: "r = (i, sl, c)" by (cases r)
  have "subjects' = subjects \<or> subjects' = subjects[i := mark_allocated (subjects ! i) sl]"
    using do_request_cases[OF assms[unfolded r]] by blast
  then have "allocated_times (subjects' ! k) \<subseteq>
           allocated_times (subjects ! k) \<union> {sl. \<exists>c. r = (k, sl, c)} \<and>
       allocated_times (subjects ! k) \<subseteq> allocated_times (subjects' ! k)"
  proof
    assume "subjects' = subjects"
    then show ?thesis by simp
  next
    assume u: "subjects' = subjects[i := mark_allocated (subjects ! i) sl]"
    show ?thesis
    proof (cases "i < length subjects \<and> k = i")
      case True
      then have "subjects' ! k = mark_allocated (subjects ! k) sl" using u by simp
      then show ?thesis using True r by (auto simp: mark_allocated_def)
    next
      case False
      then have "subjects' ! k = subjects ! k"
        using u by (cases "i < length subjects") (auto simp: list_update_beyond)
      then show ?thesis by simp
    qed
  qed
  then show "allocated_times (subjects' ! k) \<subseteq>
           allocated_times (subjects ! k) \<union> {sl. \<exists>c. r = (k, sl, c)}"
    and "allocated_times (subjects ! k) \<subseteq> allocated_times (subjects' ! k)"
    by blast+
qed

lemma run_requests_bound:
  assumes "run_requests rs (g, subjects) = Inr (g', subjects')"
  shows "allocated_times (subjects' ! k) \<subseteq>
           allocated_times (subjects ! k) \<union> {sl. \<exists>c. (k, sl, c) \<in> set rs}"
proof -
  let ?P = "\<lambda>st. allocated_times (snd st ! k) \<subseteq>
           allocated_times (subjects ! k) \<union> {sl. \<exists>c. (k, sl, c) \<in> set rs}"
  have "?P (g', subjects')"
  proof (rule run_requests_induct[OF assms, where P = ?P])
    show "?P (g, subjects)" by simp
  next
    fix a r b
    assume p: "?P a" and r: "r \<in> set rs" and d: "do_request a r = Inr b"
    obtain ga sa where a: "a = (ga, sa)" by (cases a)
    obtain gb sb where b: "b = (gb, sb)" by (cases b)
    show "?P b"
      using do_request_bound(1)[OF d[unfolded a b], of k] p r a b by auto
  qed
  then show ?thesis by simp
qed

lemma run_requests_mono:
  assumes "run_requests rs (g, subjects) = Inr (g', subjects')"
  shows "allocated_times (subjects ! k) \<subseteq> allocated_times (subjects' ! k)"
proof -
  let ?P = "\<lambda>st. allocated_times (subjects ! k) \<subseteq> allocated_times (snd st ! k)"
  have "?P (g', subjects')"
  proof (rule run_requests_induct[OF assms, where P = ?P])
    show "?P (g, subjects)" by simp
  next
    fix a r b
    assume p: "?P a" and r: "r \<in> set rs" and d: "do_request a r = Inr b"
    obtain ga sa where a: "a = (ga, sa)" by (cases a)
    obtain gb sb where b: "b = (gb, sb)" by (cases b)
    show "?P b"
      using do_request_bound(2)[OF d[unfolded a b], of k] p a b by auto
  qed
  then show ?thesis by simp
qed

lemma is_free_False_grows:
  "is_free g sl = Inr False \<Longrightarrow> grows g g' \<Longrightarrow> is_free g' sl = Inr False"
proof (induction g sl rule: is_free.induct)
  case (1 schedule a e)
  show ?case
  proof (cases "a < e")
    case True
    from 1(2) True obtain v where v: "schedule a = Some v"
      by (cases "schedule a") (auto simp: is_free_step)
    then obtain w where w: "g' a = Some w" using 1(3) by (auto simp: grows_def)
    show ?thesis
    proof (cases "v = []")
      case e: True
      have "is_free schedule (a + 5, e) = Inr False"
        using 1(2) True v e by (simp add: is_free_step)
      then have "is_free g' (a + 5, e) = Inr False"
        using 1(1)[OF True v] e 1(3) by simp
      then show ?thesis using True w by (simp add: is_free_step)
    next
      case False
      then have "w = v" using v w 1(3) by (auto simp: grows_def)
      then show ?thesis using True w False by (simp add: is_free_step)
    qed
  next
    case False
    then show ?thesis using 1(2) by (simp add: is_free_done)
  qed
qed

lemma do_request_serves:
  assumes "do_request (g, subjects) r = Inr (g', subjects')" "fst r < length subjects"
  shows "served (g', subjects') r"
proof -
  obtain i sl c where r: "r = (i, sl, c)" by (cases r)
  show ?thesis
    using do_request_cases[OF assms(1)[unfolded r]] assms(2) r
    by (auto simp: served_def mark_allocated_def)
qed

lemma served_later:
  assumes "served (g, subjects) r" "run_requests rs (g, subjects) = Inr (g', subjects')"
  shows "served (g', subjects') r"
proof -
  obtain i sl c where r: "r = (i, sl, c)" by (cases r)
  show ?thesis
    using assms(1) run_requests_mono[OF assms(2), of i]
      is_free_False_grows[OF _ run_requests_grows[OF assms(2)], of sl] r
    by (auto simp: served_def)
qed

lemma run_requests_length:
  "run_requests rs (g, subjects) = Inr (g', subjects') \<Longrightarrow> length subjects' = length subjects"
  using run_requests_static by (metis length_map)

lemma run_requests_serves:
  assumes "run_requests rs (g, subjects) = Inr (g', subjects')"
    and "\<forall>r \<in> set rs. fst r < length subjects"
  shows "\<forall>r \<in> set rs. served (g', subjects') r"
  using assms
proof (induction rs arbitrary: g subjects)
  case Nil
  then show ?case by simp
next
  case (Cons r rs)
  from Cons.prems(1) obtain g1 s1 where d: "do_request (g, subjects) r = Inr (g1, s1)"
    and rest: "run_requests rs (g1, s1) = Inr (g', subjects')"
    by (auto split: sum.splits)
  have l: "length s1 = length subjects" using do_request_length[OF d] .
  have "served (g1, s1) r" using do_request_serves[OF d] Cons.prems(2) by simp
  then have a: "served (g', subjects') r" using served_later rest by blast
  have b: "\<forall>r \<in> set rs. served (g', subjects') r"
    by (rule Cons.IH[OF rest]) (use Cons.prems(2) l in simp)
  show ?case using a b by simp
qed

lemma classify_eq:
  "classify ss incomplete total_failure =
     (incomplete \<or> (\<exists>s \<in> set ss. is_partially_complete s \<and> \<not> is_complete s),
      total_failure \<or> (\<exists>s \<in> set ss. \<not> is_partially_complete s),
      map reset ss)"
  by (induction ss arbitrary: incomplete total_failure) auto

lemma first_come_requests_iff:
  "(k, sl, c) \<in> set (first_come_requests subjects combination) \<longleftrightarrow>
     k < length subjects \<and> \<not> c \<and>
     (\<exists>j < length (times_list (subjects ! k)). combination ! k ! j \<and>
        sl = times_list (subjects ! k) ! j)"
  by (auto simp: first_come_requests_def)

lemma fill_requests_iff:
  "(k, sl, c) \<in> set (fill_requests subjects) \<longleftrightarrow>
     k < length subjects \<and> c \<and> type (subjects ! k) = VO \<and> sl \<in> set (times_list (subjects ! k))"
  by (auto simp: fill_requests_def)

lemma requests_in_range:
  "\<forall>r \<in> set (first_come_requests subjects combination @ fill_requests subjects).
     fst r < length subjects"
  by (auto simp: first_come_requests_def fill_requests_def)

lemma count_one_unique:
  "count_list v True = 1 \<Longrightarrow> \<exists>j0 < length v. \<forall>j < length v. v ! j \<longleftrightarrow> j = j0"
proof (induction v)
  case Nil
  then show ?case by simp
next
  case (Cons b v)
  show ?case
  proof (cases b)
    case True
    then have "count_list v True = 0" using Cons.prems by simp
    then have "True \<notin> set v" by (simp add: count_list_0_iff)
    then have "\<forall>j < length v. \<not> v ! j" by (metis nth_mem)
    then have "\<forall>j < length (b # v). (b # v) ! j \<longleftrightarrow> j = 0"
      using True by (auto simp: nth_Cons split: nat.splits)
    then show ?thesis by blast
  next
    case False
    then have "count_list v True = 1" using Cons.prems by simp
    then obtain j0 where j0: "j0 < length v" "\<forall>j < length v. v ! j \<longleftrightarrow> j = j0"
      using Cons.IH by blast
    have "\<forall>j < length (b # v). (b # v) ! j \<longleftrightarrow> j = Suc j0"
      using False j0 by (auto simp: nth_Cons split: nat.splits)
    then show ?thesis using j0(1) by auto
  qed
qed

lemma Allocation_UE:
  "type s = UE \<Longrightarrow> v \<in> set (private_array (Allocation s)) \<Longrightarrow> count_list v True = 1"
  by (auto simp: Allocation_def sum_bools_count)

lemma materialize_run:
  assumes "cursors_for subjects allocations" "materialize subjects allocations = Inr (g, subjects')"
  shows "run_requests (first_come_requests subjects (map current allocations) @ fill_requests subjects)
           (empty_schedule, subjects) = Inr (g, subjects')"
  using assms materialize_requests[OF assms(1)] by (simp add: spec_materialize_def)

lemma materialize_static:
  assumes "cursors_for subjects allocations" "materialize subjects allocations = Inr (g, subjects')"
  shows "map static subjects' = map static subjects"
  using run_requests_static[OF materialize_run[OF assms]] .

lemma materialize_static_nth:
  assumes "cursors_for subjects allocations" "materialize subjects allocations = Inr (g, subjects')"
    "k < length subjects"
  shows "name (subjects' ! k) = name (subjects ! k)"
    "times_list (subjects' ! k) = times_list (subjects ! k)"
    "type (subjects' ! k) = type (subjects ! k)"
  using static_nth[OF materialize_static[OF assms(1,2)] assms(3)]
  by (simp_all add: static_def)

lemma materialize_length:
  assumes "cursors_for subjects allocations" "materialize subjects allocations = Inr (g, subjects')"
  shows "length subjects' = length subjects"
  using materialize_static[OF assms] by (metis length_map)

lemma materialize_bound_times:
  assumes "cursors_for subjects allocations" "materialize subjects allocations = Inr (g, subjects')"
    "k < length subjects" "allocated_times (subjects ! k) = {}"
  shows "allocated_times (subjects' ! k) \<subseteq> set (times_list (subjects ! k))"
proof -
  have "allocated_times (subjects' ! k) \<subseteq> allocated_times (subjects ! k) \<union>
      {sl. \<exists>c. (k, sl, c) \<in> set (first_come_requests subjects (map current allocations) @
                                   fill_requests subjects)}"
    by (rule run_requests_bound[OF materialize_run[OF assms(1,2)]])
  then show ?thesis
    using assms(4) by (auto simp: first_come_requests_iff fill_requests_iff)
qed

lemma materialize_bound_UE:
  assumes "cursors_for subjects allocations" "materialize subjects allocations = Inr (g, subjects')"
    "k < length subjects" "allocated_times (subjects ! k) = {}" "type (subjects ! k) = UE"
  shows "\<exists>sl. allocated_times (subjects' ! k) \<subseteq> {sl}"
proof -
  let ?v = "current (allocations ! k)"
  have len: "length allocations = length subjects"
    using assms(1) by (simp add: cursors_for_def list_all2_lengthD)
  have v: "?v \<in> set (private_array (Allocation (subjects ! k)))"
    using cursors_for_nth(2)[OF assms(1,3)] .
  have lv: "length ?v = length (times_list (subjects ! k))"
    using Allocation_length[OF v] .
  obtain j0 where j0: "\<forall>j < length ?v. ?v ! j \<longleftrightarrow> j = j0"
    using count_one_unique[OF Allocation_UE[OF assms(5) v]] by blast
  have "allocated_times (subjects' ! k) \<subseteq> allocated_times (subjects ! k) \<union>
      {sl. \<exists>c. (k, sl, c) \<in> set (first_come_requests subjects (map current allocations) @
                                   fill_requests subjects)}"
    by (rule run_requests_bound[OF materialize_run[OF assms(1,2)]])
  then have "allocated_times (subjects' ! k) \<subseteq> {times_list (subjects ! k) ! j0}"
    using assms(3,4,5) j0 lv len
    by (auto simp: first_come_requests_iff fill_requests_iff)
  then show ?thesis by blast
qed

lemma materialize_nonempty:
  assumes "cursors_for subjects allocations" "materialize subjects allocations = Inr (g, subjects')"
  shows "grows empty_schedule g"
  using run_requests_grows[OF materialize_run[OF assms]] .

lemma materialize_owns:
  assumes "cursors_for subjects allocations"
    and "\<forall>s \<in> set subjects. name s \<noteq> [] \<and> allocated_times s = {}"
    and "materialize subjects allocations = Inr (g, subjects')"
    and "k < length subjects" "sl \<in> allocated_times (subjects' ! k)" "t \<in> set (ticks sl)"
  shows "g t = Some (name (subjects ! k))"
proof -
  have "\<forall>s \<in> set subjects. name s \<noteq> [] \<and> owns empty_schedule s"
    using assms(2) by (simp add: owns_def)
  then have "\<forall>s \<in> set subjects'. name s \<noteq> [] \<and> owns g s"
    using run_requests_owns[OF materialize_run[OF assms(1,3)] _ requests_in_range] by blast
  moreover have "subjects' ! k \<in> set subjects'"
    using assms(4) materialize_length[OF assms(1,3)] by simp
  ultimately have "owns g (subjects' ! k)" by blast
  then show ?thesis
    using assms(5,6) materialize_static_nth(1)[OF assms(1,3,4)] by (auto simp: owns_def)
qed

lemma materialize_finite:
  assumes "cursors_for subjects allocations" "materialize subjects allocations = Inr (g, subjects')"
    "\<forall>s \<in> set subjects. allocated_times s = {}" "s \<in> set subjects'"
  shows "finite (allocated_times s)" "allocated_times s \<subseteq> set (times_list s)"
proof -
  obtain k where k: "k < length subjects'" "s = subjects' ! k"
    using assms(4) by (metis in_set_conv_nth)
  have k': "k < length subjects" using k materialize_length[OF assms(1,2)] by simp
  have "allocated_times (subjects' ! k) \<subseteq> set (times_list (subjects ! k))"
    by (rule materialize_bound_times[OF assms(1,2) k']) (use assms(3) k' in simp)
  then show "allocated_times s \<subseteq> set (times_list s)"
    using k materialize_static_nth(2)[OF assms(1,2) k'] by simp
  then show "finite (allocated_times s)" using finite_subset by blast
qed

lemma partially_complete_iff:
  "finite (allocated_times s) \<Longrightarrow> is_partially_complete s \<longleftrightarrow> allocated_times s \<noteq> {}"
  by (simp add: is_partially_complete_def Suc_le_eq card_gt_0_iff)

lemma not_complete_iff:
  assumes "allocated_times s \<subseteq> set (times_list s)" "allocated_times s \<noteq> {}"
  shows "\<not> is_complete s \<longleftrightarrow> type s = VO \<and> allocated_times s \<subset> set (times_list s)"
proof (cases "type s")
  case UE
  have "finite (allocated_times s)" using assms(1) finite_subset by blast
  then have "1 \<le> card (allocated_times s)"
    using assms(2) by (simp add: Suc_le_eq card_gt_0_iff)
  then show ?thesis using UE by (simp add: is_complete_def)
next
  case VO
  then show ?thesis using assms(1) by (auto simp: is_complete_def)
qed

lemma evaluate_failed:
  assumes "create_schedule subjects allocations = Inr (sched, ss)" "table sched = None"
    "\<forall>e \<in> set (saved_schedules gl). table e \<noteq> None"
  shows "evaluate subjects allocations gl = Inr (ss, gl)"
proof -
  have nd: "\<not> list_ex (\<lambda>element. schedule_eq sched element) (saved_schedules gl)"
    using assms(2,3) by (auto simp: list_ex_iff schedule_eq_def)
  show ?thesis
    unfolding evaluate_def using assms(1,2) nd by simp
qed

lemma create_schedule_eq:
  assumes "materialize subjects allocations = Inr (g, subjects')"
  shows "create_schedule subjects allocations =
      Inr (\<lparr>table = (if \<not> (\<exists>s \<in> set subjects'. \<not> is_partially_complete s) then Some g else None),
            is_incomplete = (\<exists>s \<in> set subjects'. is_partially_complete s \<and> \<not> is_complete s)\<rparr>,
           map reset subjects')"
  by (simp add: create_schedule_def assms classify_eq)

lemma classify_facts:
  assumes "cursors_for subjects allocations"
    and "\<forall>s \<in> set subjects. allocated_times s = {}"
    and "materialize subjects allocations = Inr (g, subjects')"
  shows "(\<exists>s \<in> set subjects'. \<not> is_partially_complete s) \<longleftrightarrow>
         (\<exists>s \<in> set subjects'. allocated_times s = {})"
    and "\<not> (\<exists>s \<in> set subjects'. allocated_times s = {}) \<Longrightarrow>
         (\<exists>s \<in> set subjects'. is_partially_complete s \<and> \<not> is_complete s) \<longleftrightarrow>
         (\<exists>s \<in> set subjects'. type s = VO \<and> allocated_times s \<subset> set (times_list s))"
proof -
  have pc: "is_partially_complete s \<longleftrightarrow> allocated_times s \<noteq> {}" if "s \<in> set subjects'" for s
    by (rule partially_complete_iff[OF materialize_finite(1)[OF assms(1,3,2) that]])
  have co: "\<not> is_complete s \<longleftrightarrow> type s = VO \<and> allocated_times s \<subset> set (times_list s)"
    if "s \<in> set subjects'" "allocated_times s \<noteq> {}" for s
    by (rule not_complete_iff[OF materialize_finite(2)[OF assms(1,3,2) that(1)] that(2)])
  show "(\<exists>s \<in> set subjects'. \<not> is_partially_complete s) \<longleftrightarrow>
         (\<exists>s \<in> set subjects'. allocated_times s = {})"
  proof
    assume "\<exists>s \<in> set subjects'. \<not> is_partially_complete s"
    then obtain s where s: "s \<in> set subjects'" "\<not> is_partially_complete s" by (rule bexE)
    have "allocated_times s = {}" using pc[OF s(1)] s(2) by simp
    then show "\<exists>s \<in> set subjects'. allocated_times s = {}" using s(1) by (rule bexI)
  next
    assume "\<exists>s \<in> set subjects'. allocated_times s = {}"
    then obtain s where s: "s \<in> set subjects'" "allocated_times s = {}" by (rule bexE)
    have "\<not> is_partially_complete s" using pc[OF s(1)] s(2) by simp
    then show "\<exists>s \<in> set subjects'. \<not> is_partially_complete s" using s(1) by (rule bexI)
  qed
  assume False: "\<not> (\<exists>s \<in> set subjects'. allocated_times s = {})"
  have ne: "allocated_times s \<noteq> {}" if "s \<in> set subjects'" for s
    using False that by (simp only: bex_simps not_ex) simp
  show "(\<exists>s \<in> set subjects'. is_partially_complete s \<and> \<not> is_complete s) \<longleftrightarrow>
         (\<exists>s \<in> set subjects'. type s = VO \<and> allocated_times s \<subset> set (times_list s))"
  proof
    assume "\<exists>s \<in> set subjects'. is_partially_complete s \<and> \<not> is_complete s"
    then obtain s where s: "s \<in> set subjects'" "is_partially_complete s \<and> \<not> is_complete s"
      by (rule bexE)
    have "type s = VO \<and> allocated_times s \<subset> set (times_list s)"
      using co[OF s(1) ne[OF s(1)]] s(2) by simp
    then show "\<exists>s \<in> set subjects'. type s = VO \<and> allocated_times s \<subset> set (times_list s)"
      using s(1) by (rule bexI)
  next
    assume "\<exists>s \<in> set subjects'. type s = VO \<and> allocated_times s \<subset> set (times_list s)"
    then obtain s where s: "s \<in> set subjects'"
      "type s = VO \<and> allocated_times s \<subset> set (times_list s)" by (rule bexE)
    have a: "is_partially_complete s" using pc[OF s(1)] ne[OF s(1)] by simp
    have b: "\<not> is_complete s" using co[OF s(1) ne[OF s(1)]] s(2) by simp
    have "is_partially_complete s \<and> \<not> is_complete s" using a b by (rule conjI)
    then show "\<exists>s \<in> set subjects'. is_partially_complete s \<and> \<not> is_complete s"
      using s(1) by (rule bexI)
  qed
qed

section \<open>The keys of the empty schedule\<close>

lemma fold_upd_apply:
  "fold (\<lambda>x m. m(f x \<mapsto> v)) xs m t = (if t \<in> f ` set xs then Some v else m t)"
  by (induction xs arbitrary: m) auto

lemma fold_region_apply:
  assumes "\<And>x m t. F x m t = (if t \<in> A x then Some v else m t)"
  shows "fold F xs m t = (if t \<in> (\<Union>x \<in> set xs. A x) then Some v else m t)"
  by (induction xs arbitrary: m) (auto simp: assms)

lemma empty_schedule_set:
  "empty_schedule t =
     (if t \<in> (\<Union>day \<in> set [day0..<day0 + 5]. \<Union>hh \<in> set [start_of_day..<end_of_day].
                 (\<lambda>mm. datetime day hh mm) ` set (map (\<lambda>k. 5 * k) [0..<12]))
      then Some [] else None)"
  unfolding empty_schedule_def
  by (rule fold_region_apply, rule fold_region_apply, rule fold_upd_apply)

lemma in_grid_datetime:
  assumes "2 \<le> d" "d < 7" "8 \<le> h" "h < 20" "k < 12"
  shows "in_grid (datetime d h (5 * k))"
proof -
  let ?t = "datetime d h (5 * k)"
  have t: "?t = 1440 * d + 60 * h + 5 * k" by (simp add: datetime_def)
  have d: "?t div 1440 = d"
    by (rule div_nat_eqI) (use t assms in simp_all)
  have "?t = 1440 * (?t div 1440) + ?t mod 1440" by simp
  then have m: "?t mod 1440 = 60 * h + 5 * k" using d t by linarith
  have h: "?t mod 1440 div 60 = h"
    unfolding m by (rule div_nat_eqI) (use assms in simp_all)
  have "?t = 5 * (288 * d + 12 * h + k)" using t by simp
  then have "5 dvd ?t" by (rule dvdI)
  then show ?thesis
    using d h assms by (simp add: in_grid_def day0_def start_of_day_def end_of_day_def)
qed

lemma in_grid_iff:
  "t \<in> (\<Union>day \<in> set [day0..<day0 + 5]. \<Union>hh \<in> set [start_of_day..<end_of_day].
                 (\<lambda>mm. datetime day hh mm) ` set (map (\<lambda>k. 5 * k) [0..<12])) \<longleftrightarrow> in_grid t"
proof
  assume "t \<in> (\<Union>day \<in> set [day0..<day0 + 5]. \<Union>hh \<in> set [start_of_day..<end_of_day].
                 (\<lambda>mm. datetime day hh mm) ` set (map (\<lambda>k. 5 * k) [0..<12]))"
  then obtain d h k where b0: "day0 \<le> d" "d < day0 + 5" "start_of_day \<le> h" "h < end_of_day"
    "k < 12" and t0: "t = datetime d h (5 * k)"
    by auto
  have b: "2 \<le> d" "d < 7" "8 \<le> h" "h < 20" "k < 12"
    using b0 by (simp_all add: day0_def start_of_day_def end_of_day_def)
  show "in_grid t" unfolding t0 by (rule in_grid_datetime[OF b])
next
  assume g: "in_grid t"
  define d where "d = t div 1440"
  define m where "m = t mod 1440"
  define h where "h = m div 60"
  define r where "r = m mod 60"
  have t1: "t = 1440 * d + m" by (simp add: d_def m_def)
  have t2: "m = 60 * h + r" by (simp add: h_def r_def)
  have t: "t = 5 * (288 * d + 12 * h) + r" using t1 t2 by simp
  have "5 dvd t" using g by (simp add: in_grid_def)
  then have "5 dvd 5 * (288 * d + 12 * h) + r" using t by simp
  then have "5 dvd r" by (simp only: dvd_add_right_iff dvd_triv_left)
  then obtain k where k: "r = 5 * k" by (rule dvdE)
  have "r < 60" by (simp add: r_def)
  then have k12: "k < 12" using k by simp
  have "t = datetime d h (5 * k)" using t k by (simp add: datetime_def)
  moreover have "day0 \<le> d" "d < day0 + 5" "start_of_day \<le> h" "h < end_of_day"
    using g by (simp_all add: in_grid_def d_def h_def m_def)
  ultimately show "t \<in> (\<Union>day \<in> set [day0..<day0 + 5]. \<Union>hh \<in> set [start_of_day..<end_of_day].
                 (\<lambda>mm. datetime day hh mm) ` set (map (\<lambda>k. 5 * k) [0..<12]))"
    using k12
    apply (simp add: image_iff)
    apply (rule bexI[of _ d])
     apply (rule bexI[of _ h])
      apply (rule bexI[of _ k])
       apply simp_all
    done
qed

lemma empty_schedule_apply: "empty_schedule t = (if in_grid t then Some [] else None)"
  using empty_schedule_set[of t] by (simp only: in_grid_iff)

section \<open>Invariants of the traversal\<close>

lemma globals_of_simps [simp]:
  "globals_of (Inl (e, g)) = g" "globals_of (Inr (s, a, g)) = g"
  by (simp_all add: globals_of_def)

lemma percolate_loop_invariant:
  assumes ih: "\<And>subjects allocations g r.
      percolate depth subjects allocations g = Some r \<Longrightarrow> I g \<Longrightarrow> I (globals_of r)"
  shows "percolate_loop depth is subjects allocations g = Some r \<Longrightarrow> I g \<Longrightarrow> I (globals_of r)"
proof (induction "is" arbitrary: subjects allocations g)
  case Nil
  then show ?case by auto
next
  case (Cons i "is")
  let ?adv = "allocations[i := advance (allocations ! i)]"
  from Cons.prems(1) obtain r1 where r1: "percolate depth subjects ?adv g = Some r1"
    by (cases "percolate depth subjects ?adv g") auto
  have i1: "I (globals_of r1)" by (rule ih[OF r1 Cons.prems(2)])
  show ?case
  proof (cases r1)
    case (Inl eg)
    then have "r = r1" using Cons.prems(1) r1 by simp
    then show ?thesis using i1 by simp
  next
    case (Inr p)
    obtain s' a' g' where p: "p = (s', a', g')" by (cases p)
    have l: "percolate_loop depth is s' (a'[i := reverse (a' ! i)]) g' = Some r"
      using Cons.prems(1) r1 Inr p by simp
    have "I g'" using i1 Inr p by simp
    then show ?thesis by (rule Cons.IH[OF l])
  qed
qed

lemma percolate_invariant:
  assumes ev: "\<And>subjects allocations g e g'.
      I g \<Longrightarrow> evaluate subjects allocations g = Inl (e, g') \<Longrightarrow> I g'"
    and ev': "\<And>subjects allocations g s' g'.
      I g \<Longrightarrow> evaluate subjects allocations g = Inr (s', g') \<Longrightarrow> I g'"
    and upd: "\<And>g p e. I g \<Longrightarrow> I (g\<lparr>permutations := p, evaluated := e\<rparr>)"
  shows "percolate depth subjects allocations g = Some r \<Longrightarrow> I g \<Longrightarrow> I (globals_of r)"
proof (induction depth arbitrary: subjects allocations g r)
  case 0
  then show ?case by simp
next
  case (Suc depth)
  show ?case
  proof (cases "reset_first_reached_end allocations")
    case (Some a')
    then have "r = Inr (subjects, a', g)" using Suc.prems(1) by simp
    then show ?thesis using Suc.prems(2) by simp
  next
    case None
    show ?thesis
    proof (cases "perm_check allocations")
      case (Inl e)
      then have "r = Inl (e, g)" using Suc.prems(1) None by simp
      then show ?thesis using Suc.prems(2) by simp
    next
      case (Inr perm)
      show ?thesis
      proof (cases "perm \<in> permutations g")
        case True
        then have "r = Inr (subjects, allocations, g)" using Suc.prems(1) None Inr by simp
        then show ?thesis using Suc.prems(2) by simp
      next
        case False
        let ?g = "g\<lparr>permutations := insert perm (permutations g),
                      evaluated := evaluated g @ [perm]\<rparr>"
        have ig: "I ?g" by (rule upd[OF Suc.prems(2)])
        show ?thesis
        proof (cases "evaluate subjects allocations ?g")
          case (Inl eg)
          obtain e g' where eg: "eg = (e, g')" by (cases eg)
          have "r = Inl (e, g')" using Suc.prems(1) None Inr False Inl eg by simp
          moreover have "I g'" by (rule ev[OF ig Inl[unfolded eg]])
          ultimately show ?thesis by simp
        next
          case R: (Inr p)
          obtain s' g' where p: "p = (s', g')" by (cases p)
          have l: "percolate_loop depth [0..<length allocations] s' allocations g' = Some r"
            using Suc.prems(1) None Inr False R p by simp
          have ig': "I g'" by (rule ev'[OF ig R[unfolded p]])
          show ?thesis
          proof (rule percolate_loop_invariant[where I = I and depth = depth])
            show "percolate_loop depth [0..<length allocations] s' allocations g' = Some r"
              by (rule l)
            show "I g'" by (rule ig')
            fix subjects allocations g r
            assume "percolate depth subjects allocations g = Some r" "I g"
            then show "I (globals_of r)" by (rule Suc.IH)
          qed
        qed
      qed
    qed
  qed
qed

section \<open>The example timetable\<close>

lemma in_grid_between:
  assumes "in_grid a" "a \<le> t" "t < 1440 * (a div 1440) + 1200" "5 dvd (t - a)"
  shows "in_grid t"
proof -
  define d where "d = a div 1440"
  define m where "m = a mod 1440"
  have a: "a = 1440 * d + m" by (simp add: d_def m_def)
  have m: "480 \<le> m" "m < 1200"
  proof -
    have "8 \<le> m div 60" "m div 60 < 20"
      using assms(1) by (simp_all add: in_grid_def m_def start_of_day_def end_of_day_def)
    then show "480 \<le> m" "m < 1200" by linarith+
  qed
  define n where "n = t - 1440 * d"
  have t: "t = 1440 * d + n" using assms(2) a by (simp add: n_def)
  have a3: "t < 1440 * d + 1200" using assms(3) by (simp add: d_def)
  have n: "m \<le> n" "n < 1200" using assms(2) a3 a t by simp_all
  have td: "t div 1440 = d" by (rule div_nat_eqI) (use t n in simp_all)
  have "t = 1440 * (t div 1440) + t mod 1440" by simp
  then have tm: "t mod 1440 = n" using td t by simp
  have h: "8 \<le> n div 60" "n div 60 < 20" using n m by linarith+
  have "5 dvd a" using assms(1) by (simp add: in_grid_def)
  moreover have "t = a + (t - a)" using assms(2) by simp
  ultimately have "5 dvd t" using assms(4) by (metis dvd_add)
  then show ?thesis
    using assms(1) td tm h
    by (simp add: in_grid_def d_def start_of_day_def end_of_day_def)
qed

lemma slot_in_gridI:
  assumes "in_grid a" "b \<le> 1440 * (a div 1440) + 1200"
  shows "slot_in_grid (a, b)"
  unfolding slot_in_grid_def list_all_iff
  using in_grid_between[OF assms(1)] assms(2) by (auto simp: ticks_iff)

lemma is_free_empty_schedule:
  "slot_in_grid sl \<Longrightarrow> is_free empty_schedule sl = Inr True"
  by (simp add: is_free_True_iff slot_in_grid_def list_all_iff empty_schedule_apply)

lemma ticks_disjoint:
  "b \<le> c \<or> d \<le> a \<Longrightarrow> set (ticks (a, b)) \<inter> set (ticks (c, d)) = {}"
  by (auto simp: ticks_iff)

lemma is_free_fill_disjoint:
  assumes "set (ticks sl) \<inter> set (ticks sl') = {}"
  shows "is_free (fill g n sl') sl = is_free g sl"
  by (rule is_free_cong_ticks) (use assms in \<open>auto simp: fill_apply\<close>)

lemma slots_numeral:
  "mo_8_9 = (3360, 3420)" "mo_9_10 = (3420, 3480)" "di_8_9 = (4800, 4860)"
  by (simp_all add: mo_8_9_def mo_9_10_def di_8_9_def datetime_def)

lemma in_grid_examples: "in_grid 3360" "in_grid 3420" "in_grid 4800"
  by (simp_all add: in_grid_def day0_def start_of_day_def end_of_day_def)

lemma example_slots_in_grid: "slot_in_grid mo_8_9" "slot_in_grid mo_9_10" "slot_in_grid di_8_9"
  unfolding slots_numeral
  by (rule slot_in_gridI, simp add: in_grid_examples, simp)+

lemma example_free:
  "is_free empty_schedule mo_9_10 = Inr True"
  "is_free (fill empty_schedule ''tutorial'' mo_9_10) di_8_9 = Inr True"
  "is_free (fill (fill empty_schedule ''tutorial'' mo_9_10) ''lecture'' di_8_9) mo_8_9 = Inr True"
proof -
  have d1: "set (ticks di_8_9) \<inter> set (ticks mo_9_10) = {}"
    unfolding slots_numeral by (rule ticks_disjoint) simp
  have d2: "set (ticks mo_8_9) \<inter> set (ticks di_8_9) = {}"
    unfolding slots_numeral by (rule ticks_disjoint) simp
  have d3: "set (ticks mo_8_9) \<inter> set (ticks mo_9_10) = {}"
    unfolding slots_numeral by (rule ticks_disjoint) simp
  show "is_free empty_schedule mo_9_10 = Inr True"
    by (rule is_free_empty_schedule[OF example_slots_in_grid(2)])
  show "is_free (fill empty_schedule ''tutorial'' mo_9_10) di_8_9 = Inr True"
    by (simp only: is_free_fill_disjoint[OF d1] is_free_empty_schedule[OF example_slots_in_grid(3)])
  show "is_free (fill (fill empty_schedule ''tutorial'' mo_9_10) ''lecture'' di_8_9) mo_8_9 = Inr True"
    by (simp only: is_free_fill_disjoint[OF d2] is_free_fill_disjoint[OF d3]
        is_free_empty_schedule[OF example_slots_in_grid(1)])
qed

lemma example_arrays:
  "private_array (Allocation tutorial) = [[True, False], [False, True]]"
  "private_array (Allocation lecture) = [[True, True], [True, False], [False, True]]"
  by (simp_all add: Allocation_def tutorial_def lecture_def sum_bools_def any_true_def)

lemma example_cursors: "cursors_for timetable cursors_b"
  by (simp add: cursors_for_def timetable_def cursors_b_def example_arrays)

lemma example_get_array:
  "get_array (cursors_b ! 0) = Inr [False, True]"
  "get_array (cursors_b ! Suc 0) = Inr [False, True]"
  by (simp_all add: cursors_b_def get_array_def example_arrays)

lemma example_fresh: "\<forall>s \<in> set timetable. name s \<noteq> [] \<and> allocated_times s = {}"
  by (simp add: timetable_def tutorial_def lecture_def)

lemma example_first_pass:
  "first_pass cursors_b [0..<length timetable] empty_schedule timetable =
     Inr (fill (fill empty_schedule ''tutorial'' mo_9_10) ''lecture'' di_8_9,
          [mark_allocated tutorial mo_9_10, mark_allocated lecture di_8_9])"
proof -
  have u: "[0..<length timetable] = [0, 1]" by (simp add: timetable_def upt_rec)
  have l: "length cursors_b = 2" by (simp add: cursors_b_def)
  have t0: "timetable ! 0 = tutorial" "timetable ! Suc 0 = lecture"
    "timetable[0 := x] ! Suc 0 = lecture"
    "timetable[0 := x, Suc 0 := y] = [x, y]" for x y
    by (simp_all add: timetable_def)
  have tl: "times_list tutorial = [mo_8_9, mo_9_10]" "times_list lecture = [mo_8_9, di_8_9]"
    "name tutorial = ''tutorial''" "name lecture = ''lecture''"
    by (simp_all add: tutorial_def lecture_def)
  have s0: "first_pass_slots cursors_b 0 [0..<length (times_list tutorial)] empty_schedule tutorial =
      Inr (fill empty_schedule ''tutorial'' mo_9_10, mark_allocated tutorial mo_9_10)"
    by (simp add: tl upt_rec l example_get_array try_allocate_def example_free
        mark_allocated_def)
  have s1: "first_pass_slots cursors_b (Suc 0) [0..<length (times_list lecture)]
        (fill empty_schedule ''tutorial'' mo_9_10) lecture =
      Inr (fill (fill empty_schedule ''tutorial'' mo_9_10) ''lecture'' di_8_9,
           mark_allocated lecture di_8_9)"
    by (simp add: tl upt_rec l example_get_array try_allocate_def example_free
        mark_allocated_def)
  show ?thesis
    unfolding u by (simp add: t0 s0 s1)
qed

lemma example_materialize: "materialize timetable cursors_b = Inr (table_b, timetable_b)"
proof -
  have ne: "mo_8_9 \<noteq> di_8_9" by (simp add: slots_numeral)
  have a: "type (mark_allocated tutorial mo_9_10) = UE"
    "type (mark_allocated lecture di_8_9) = VO"
    "times_list (mark_allocated lecture di_8_9) = [mo_8_9, di_8_9]"
    "allocated_times (mark_allocated lecture di_8_9) = {di_8_9}"
    "name (mark_allocated lecture di_8_9) = ''lecture''"
    "di_8_9 \<in> allocated_times (mark_allocated (mark_allocated lecture di_8_9) mo_8_9)"
    by (simp_all add: mark_allocated_def tutorial_def lecture_def)
  show ?thesis
    unfolding materialize_def example_first_pass
    by (simp add: a ne try_allocate_def example_free table_b_def timetable_b_def)
qed

lemma example_fresh': "\<forall>s \<in> set timetable. allocated_times s = {}"
  using example_fresh by blast

lemma example_allocated:
  "allocated_times (timetable_b ! 0) = {mo_9_10}"
  "allocated_times (timetable_b ! Suc 0) = {mo_8_9, di_8_9}"
  "set (times_list (timetable ! Suc 0)) = {mo_8_9, di_8_9}"
  "name (timetable ! 0) = ''tutorial''" "name (timetable ! Suc 0) = ''lecture''"
  "type (timetable ! 0) = UE" "length timetable = 2"
  by (simp_all add: timetable_b_def timetable_def mark_allocated_def tutorial_def lecture_def)

lemma example_create:
  "create_schedule timetable cursors_b =
     Inr (\<lparr>table = Some table_b, is_incomplete = False\<rparr>, map reset timetable_b)"
proof -
  have ne: "mo_8_9 \<noteq> di_8_9" by (simp add: slots_numeral)
  have a: "is_partially_complete s" "is_complete s" if "s \<in> set timetable_b" for s
    using that ne
    by (auto simp: timetable_b_def mark_allocated_def tutorial_def lecture_def
        is_partially_complete_def is_complete_def)
  show ?thesis
    unfolding create_schedule_eq[OF example_materialize] using a by simp
qed

section \<open>The result store\<close>

lemma first_pass_slots_grows:
  "first_pass_slots allocations i js g s = Inr (g', s') \<Longrightarrow> grows g g'"
proof (induction js arbitrary: g s)
  case Nil
  then show ?case by (simp add: grows_refl)
next
  case (Cons j js)
  from Cons.prems obtain v where v: "get_array (allocations ! i) = Inr v" "j < length v"
    "i < length allocations"
    by (auto split: if_splits sum.splits)
  show ?case
  proof (cases "v ! j")
    case True
    from Cons.prems v True obtain g1 s1 where
      t: "try_allocate g s (times_list s ! j) = Inr (g1, s1)"
      and r: "first_pass_slots allocations i js g1 s1 = Inr (g', s')"
      by (auto split: sum.splits)
    show ?thesis
      using grows_trans[OF try_allocate_grows[OF t] Cons.IH[OF r]] .
  next
    case False
    then have "first_pass_slots allocations i js g s = Inr (g', s')"
      using Cons.prems v by simp
    then show ?thesis by (rule Cons.IH)
  qed
qed

lemma first_pass_grows:
  "first_pass allocations is g subjects = Inr (g', subjects') \<Longrightarrow> grows g g'"
proof (induction "is" arbitrary: g subjects)
  case Nil
  then show ?case by (simp add: grows_refl)
next
  case (Cons i "is")
  from Cons.prems obtain g1 s1 where
    a: "first_pass_slots allocations i [0..<length (times_list (subjects ! i))] g (subjects ! i) =
        Inr (g1, s1)"
    and r: "first_pass allocations is g1 (subjects[i := s1]) = Inr (g', subjects')"
    by (auto split: sum.splits)
  show ?case
    using grows_trans[OF first_pass_slots_grows[OF a] Cons.IH[OF r]] .
qed

lemma attempts_grows: "attempts c sls g s = Inr (g', s') \<Longrightarrow> grows g g'"
proof (induction sls arbitrary: g s)
  case Nil
  then show ?case by (simp add: grows_refl)
next
  case (Cons sl sls)
  show ?case
  proof (cases "c \<and> sl \<in> allocated_times s")
    case True
    then have "attempts c sls g s = Inr (g', s')" using Cons.prems by simp
    then show ?thesis by (rule Cons.IH)
  next
    case False
    from Cons.prems False obtain g1 s1 where
      t: "try_allocate g s sl = Inr (g1, s1)" and r: "attempts c sls g1 s1 = Inr (g', s')"
      by (auto split: sum.splits)
    show ?thesis using grows_trans[OF try_allocate_grows[OF t] Cons.IH[OF r]] .
  qed
qed

lemma second_pass_grows:
  "second_pass g subjects = Inr (g', subjects') \<Longrightarrow> grows g g'"
proof (induction subjects arbitrary: g g' subjects')
  case Nil
  then show ?case by (simp add: grows_refl)
next
  case (Cons s ss)
  let ?one = "if type s = VO then second_pass_slots (times_list s) g s else Inr (g, s)"
  from Cons.prems obtain g1 s1 g2 ss2 where
    a: "?one = Inr (g1, s1)" and r: "second_pass g1 ss = Inr (g2, ss2)" and e: "g' = g2"
    by (auto split: sum.splits if_splits)
  have "grows g g1"
    using a attempts_grows[of True "times_list s" g s g1 s1]
    by (auto simp: second_pass_slots_attempts grows_refl split: if_splits)
  then show ?case using grows_trans Cons.IH[OF r] e by blast
qed

lemma materialize_grows:
  assumes "materialize subjects allocations = Inr (g, subjects')"
  shows "grows empty_schedule g"
proof -
  from assms obtain g1 s1 where
    a: "first_pass allocations [0..<length subjects] empty_schedule subjects = Inr (g1, s1)"
    and b: "second_pass g1 s1 = Inr (g, subjects')"
    by (auto simp: materialize_def split: sum.splits)
  show ?thesis by (rule grows_trans[OF first_pass_grows[OF a] second_pass_grows[OF b]])
qed

lemma empty_schedule_has_key: "empty_schedule (datetime 2 8 0) = Some []"
proof -
  have "in_grid (datetime 2 8 (5 * 0))" by (rule in_grid_datetime) simp_all
  then show ?thesis by (simp add: empty_schedule_apply)
qed

lemma grows_nonempty: "grows empty_schedule g \<Longrightarrow> g \<noteq> Map.empty"
proof
  assume a: "grows empty_schedule g" and b: "g = Map.empty"
  have "g (datetime 2 8 0) \<noteq> None"
    using a empty_schedule_has_key by (simp add: grows_def)
  then show False using b by simp
qed

lemma create_schedule_table:
  assumes "create_schedule subjects allocations = Inr (sched, subjects')" "table sched = Some t"
  shows "t \<noteq> Map.empty"
proof -
  from assms obtain ss where "materialize subjects allocations = Inr (t, ss)"
    by (auto simp: create_schedule_def split: sum.splits prod.splits if_splits)
  then show ?thesis using grows_nonempty materialize_grows by blast
qed

lemma evaluate_accepted:
  assumes "create_schedule subjects allocations = Inr (sched, subjects')" "table sched = Some t"
  shows "evaluate subjects allocations gl =
     Inr (subjects',
          if (\<exists>e \<in> set (saved_schedules gl). table e = Some t)
          then gl\<lparr>duplicates := duplicates gl + 1\<rparr>
          else gl\<lparr>version := version gl + 1, saved_schedules := saved_schedules gl @ [sched]\<rparr>)"
proof -
  have ne: "t \<noteq> Map.empty" by (rule create_schedule_table[OF assms])
  have d: "list_ex (\<lambda>element. schedule_eq sched element) (saved_schedules gl) \<longleftrightarrow>
        (\<exists>e \<in> set (saved_schedules gl). table e = Some t)"
    unfolding list_ex_iff schedule_eq_def assms(2)
    by (rule bex_cong[OF refl]) (rule eq_commute)
  show ?thesis
    unfolding evaluate_def using assms ne d by (simp add: Let_def)
qed

lemma evaluate_cases:
  assumes "evaluate subjects allocations gl = Inr (s', gl')"
  shows "gl' = gl \<or> gl' = gl\<lparr>duplicates := duplicates gl + 1\<rparr> \<or>
     (\<exists>sched. table sched \<noteq> None \<and> \<not> (\<exists>e \<in> set (saved_schedules gl). table e = table sched) \<and>
        gl' = gl\<lparr>version := version gl + 1, saved_schedules := saved_schedules gl @ [sched]\<rparr>)"
proof -
  from assms obtain sched where c: "create_schedule subjects allocations = Inr (sched, s')"
    by (auto simp: evaluate_def Let_def split: sum.splits prod.splits if_splits)
  show ?thesis
  proof (cases "table sched")
    case None
    then show ?thesis
      using assms c by (auto simp: evaluate_def Let_def split: if_splits)
  next
    case (Some t)
    show ?thesis
      using assms evaluate_accepted[OF c Some, of gl] Some
      by (cases "\<exists>e \<in> set (saved_schedules gl). table e = Some t") auto
  qed
qed

lemma evaluate_raises:
  "evaluate subjects allocations gl = Inl (e, gl') \<Longrightarrow> gl' = gl"
  by (auto simp: evaluate_def Let_def split: sum.splits prod.splits if_splits)

lemma store_ok_evaluate:
  assumes "store_ok g0 g" "evaluate subjects allocations g = Inr (s', g')"
  shows "store_ok g0 g'"
proof -
  from assms(1) obtain new where d: "distinct (map table (saved_schedules g))"
    and n: "saved_schedules g = saved_schedules g0 @ new" "version g = version g0 + length new"
    by (auto simp: store_ok_def)
  from evaluate_cases[OF assms(2)] show ?thesis
  proof (elim disjE exE conjE)
    assume "g' = g"
    then show ?thesis using assms(1) by simp
  next
    assume "g' = g\<lparr>duplicates := duplicates g + 1\<rparr>"
    then show ?thesis using assms(1) by (simp add: store_ok_def)
  next
    fix sched
    assume a: "\<not> (\<exists>e \<in> set (saved_schedules g). table e = table sched)"
      and b: "g' = g\<lparr>version := version g + 1, saved_schedules := saved_schedules g @ [sched]\<rparr>"
    have "distinct (map table (saved_schedules g'))"
      using d a b by auto
    moreover have "saved_schedules g' = saved_schedules g0 @ (new @ [sched])"
      "version g' = version g0 + length (new @ [sched])"
      using n b by simp_all
    ultimately show ?thesis unfolding store_ok_def by blast
  qed
qed

lemma store_ok_percolate:
  assumes "percolate depth subjects allocations g = Some r" "store_ok g0 g"
  shows "store_ok g0 (globals_of r)"
proof (rule percolate_invariant[where I = "store_ok g0", OF _ _ _ assms])
  fix subjects allocations g e g'
  assume "store_ok g0 g" "evaluate subjects allocations g = Inl (e, g')"
  then show "store_ok g0 g'" using evaluate_raises by blast
next
  fix subjects allocations g s' g'
  assume "store_ok g0 g" "evaluate subjects allocations g = Inr (s', g')"
  then show "store_ok g0 g'" by (rule store_ok_evaluate)
next
  fix g p e
  assume "store_ok g0 g"
  then show "store_ok g0 (g\<lparr>permutations := p, evaluated := e\<rparr>)"
    by (simp add: store_ok_def)
qed

section \<open>The seminar run and the subject without slots\<close>

lemma seminar_array: "private_array (Allocation seminar) = [[True]]"
  by (simp add: Allocation_def seminar_def any_true_def)

lemma seminar_cursor:
  "Allocation seminar = \<lparr>index = 0, has_reached_end = False, private_array = [[True]]\<rparr>"
  using seminar_array by (simp add: Allocation_def)

lemma seminar_materialize:
  "materialize [seminar] [Allocation seminar] =
     Inr (fill empty_schedule ''seminar'' di_8_9, [mark_allocated seminar di_8_9])"
proof -
  have f: "is_free empty_schedule di_8_9 = Inr True"
    by (rule is_free_empty_schedule[OF example_slots_in_grid(3)])
  have s: "times_list seminar = [di_8_9]" "name seminar = ''seminar''" "type seminar = VO"
    "type (mark_allocated seminar di_8_9) = VO"
    "times_list (mark_allocated seminar di_8_9) = [di_8_9]"
    "di_8_9 \<in> allocated_times (mark_allocated seminar di_8_9)"
    by (simp_all add: seminar_def mark_allocated_def)
  have g: "get_array (Allocation seminar) = Inr [True]"
    by (simp add: get_array_def seminar_cursor)
  show ?thesis
    by (simp add: materialize_def s g f try_allocate_def upt_rec)
qed

lemma seminar_create:
  "create_schedule [seminar] [Allocation seminar] = Inr (seminar_schedule, [seminar])"
proof -
  have a: "is_partially_complete (mark_allocated seminar di_8_9)"
    "is_complete (mark_allocated seminar di_8_9)"
    "reset (mark_allocated seminar di_8_9) = seminar"
    by (simp_all add: is_partially_complete_def is_complete_def reset_def mark_allocated_def
        seminar_def)
  show ?thesis
    unfolding create_schedule_eq[OF seminar_materialize] using a
    by (simp add: seminar_schedule_def)
qed

lemma seminar_run:
  "run 2 [seminar] = Some (Inr ([seminar], [Allocation seminar], seminar_globals))"
proof -
  let ?g = "init_globals\<lparr>permutations := insert [[True]] (permutations init_globals),
                          evaluated := evaluated init_globals @ [[[True]]]\<rparr>"
  have two: "(2::nat) = Suc (Suc 0)" by simp
  have t: "table seminar_schedule = Some (fill empty_schedule ''seminar'' di_8_9)"
    by (simp add: seminar_schedule_def)
  have e: "evaluate [seminar] [Allocation seminar] ?g = Inr ([seminar], seminar_globals)"
    unfolding evaluate_accepted[OF seminar_create t]
    by (simp add: init_globals_def seminar_globals_def)
  have p: "perm_check [Allocation seminar] = Inr [[True]]"
    by (simp add: get_array_def seminar_cursor)
  have r: "reset_first_reached_end [Allocation seminar] = None"
    by (simp add: seminar_cursor)
  have a: "advance (Allocation seminar) = (Allocation seminar)\<lparr>has_reached_end := True\<rparr>"
    by (simp add: advance_def seminar_cursor)
  have l: "percolate_loop (Suc 0) [0..<length [Allocation seminar]] [seminar] [Allocation seminar]
             seminar_globals = Some (Inr ([seminar], [Allocation seminar], seminar_globals))"
    by (simp add: advance_def reset_end_status_def reverse_def seminar_cursor)
  have n: "[[True]] \<notin> permutations init_globals" by (simp add: init_globals_def)
  have m: "map Allocation [seminar] = [Allocation seminar]" by simp
  show ?thesis
    unfolding run_def two m
    by (simp only: percolate.simps r p n e l option.case sum.case if_False prod.case)
qed

lemma empty_slots_array: "times_list s = [] \<Longrightarrow> private_array (Allocation s) = []"
  by (simp add: Allocation_def any_true_def sum_bools_def)

lemma get_array_error: "get_array a = Inl e \<Longrightarrow> e = IndexError"
  by (simp add: get_array_def split: if_splits)

lemma perm_check_error:
  "\<exists>a \<in> set allocations. private_array a = [] \<Longrightarrow> perm_check allocations = Inl IndexError"
proof (induction allocations)
  case Nil
  then show ?case by simp
next
  case (Cons a as)
  show ?case
  proof (cases "get_array a")
    case (Inl e)
    then show ?thesis using get_array_error by auto
  next
    case (Inr v)
    then have "private_array a \<noteq> []" by (auto simp: get_array_def split: if_splits)
    then have "perm_check as = Inl IndexError" using Cons by auto
    then show ?thesis using Inr by simp
  qed
qed

lemma no_flag_set:
  "\<forall>a \<in> set allocations. \<not> has_reached_end a \<Longrightarrow> reset_first_reached_end allocations = None"
  by (induction allocations) auto

lemma percolate_empty_slots:
  assumes "s \<in> set subjects" "times_list s = []"
  shows "percolate (Suc depth) subjects (map Allocation subjects) g = Some (Inl (IndexError, g))"
proof -
  have r: "reset_first_reached_end (map Allocation subjects) = None"
    by (rule no_flag_set) (simp add: Allocation_def)
  have "\<exists>a \<in> set (map Allocation subjects). private_array a = []"
    using assms empty_slots_array by auto
  then have p: "perm_check (map Allocation subjects) = Inl IndexError"
    by (rule perm_check_error)
  show ?thesis by (simp add: r p)
qed

section \<open>The traversal follows the walk\<close>

lemma is_free_defined:
  "grows empty_schedule g \<Longrightarrow> slot_in_grid sl \<Longrightarrow> \<exists>b. is_free g sl = Inr b"
proof (induction g sl rule: is_free.induct)
  case (1 schedule a e)
  show ?case
  proof (cases "a < e")
    case True
    have ia: "in_grid a" and rest: "slot_in_grid (a + 5, e)"
      using 1(3) True by (simp_all add: slot_in_grid_def ticks_step)
    have "empty_schedule a \<noteq> None" using ia by (simp add: empty_schedule_apply)
    then have "schedule a \<noteq> None" using 1(2) by (simp add: grows_def)
    then obtain v where v: "schedule a = Some v" by auto
    show ?thesis
    proof (cases "v = []")
      case e: True
      have "\<exists>b. is_free schedule (a + 5, e) = Inr b"
        using 1(1)[OF True v _ 1(2) rest] e by simp
      then obtain b where "is_free schedule (a + 5, e) = Inr b" by blast
      then have "is_free schedule (a, e) = Inr b" using True v e by (simp add: is_free_step)
      then show ?thesis by blast
    next
      case False
      then have "is_free schedule (a, e) = Inr False"
        using True v by (simp add: is_free_step)
      then show ?thesis by blast
    qed
  next
    case False
    then have "is_free schedule (a, e) = Inr True" by (simp add: is_free_done)
    then show ?thesis by blast
  qed
qed

lemma do_request_ok:
  assumes "grows empty_schedule g" "slot_in_grid (fst (snd r))"
  shows "\<exists>st'. do_request (g, subjects) r = Inr st'"
proof -
  obtain i sl c where r: "r = (i, sl, c)" by (cases r)
  have "slot_in_grid sl" using assms(2) r by simp
  then obtain b where "is_free g sl = Inr b"
    using is_free_defined[OF assms(1)] by blast
  then show ?thesis using r by (simp add: do_request_def)
qed

lemma run_requests_ok:
  assumes "\<forall>r \<in> set rs. slot_in_grid (fst (snd r))" "grows empty_schedule g"
  shows "\<exists>st'. run_requests rs (g, subjects) = Inr st'"
  using assms
proof (induction rs arbitrary: g subjects)
  case Nil
  then show ?case by simp
next
  case (Cons r rs)
  have "slot_in_grid (fst (snd r))" using Cons.prems(1) by simp
  then obtain st1 where d: "do_request (g, subjects) r = Inr st1"
    using do_request_ok[OF Cons.prems(2)] by blast
  obtain g1 s1 where st1: "st1 = (g1, s1)" by (cases st1)
  have "grows empty_schedule g1"
    using grows_trans[OF Cons.prems(2) do_request_grows[OF d[unfolded st1]]] .
  then have "\<exists>st'. run_requests rs (g1, s1) = Inr st'"
    using Cons.IH[of g1 s1] Cons.prems(1) by simp
  then show ?case using d st1 by simp
qed

lemma request_slots:
  assumes "r \<in> set (first_come_requests subjects combination @ fill_requests subjects)"
  shows "fst r < length subjects \<and> fst (snd r) \<in> set (times_list (subjects ! fst r))"
proof -
  obtain i sl c where r: "r = (i, sl, c)" by (cases r)
  show ?thesis
    using assms unfolding r by (auto simp: first_come_requests_iff fill_requests_iff)
qed

lemma well_formed_nth:
  assumes "well_formed subjects" "k < length subjects"
  shows "allocated_times (subjects ! k) = {}"
    and "sl \<in> set (times_list (subjects ! k)) \<Longrightarrow> slot_in_grid sl"
  using assms by (auto simp: well_formed_def list_all_iff)

lemma materialize_ok:
  assumes "well_formed subjects" "cursors_for subjects allocations"
  shows "\<exists>g subjects'. materialize subjects allocations = Inr (g, subjects')"
proof -
  let ?rs = "first_come_requests subjects (map current allocations) @ fill_requests subjects"
  have "\<forall>r \<in> set ?rs. slot_in_grid (fst (snd r))"
    using request_slots well_formed_nth(2)[OF assms(1)] by blast
  then obtain st' where "run_requests ?rs (empty_schedule, subjects) = Inr st'"
    using run_requests_ok[OF _ grows_refl] by blast
  then show ?thesis
    using materialize_requests[OF assms(2)] by (cases st') (simp add: spec_materialize_def)
qed

lemma reset_eq: "static a = static b \<Longrightarrow> allocated_times b = {} \<Longrightarrow> reset a = b"
  by (cases a, cases b) (simp add: static_def reset_def)

lemma map_reset_eq:
  assumes "map static subjects' = map static subjects" "well_formed subjects"
  shows "map reset subjects' = subjects"
proof (rule nth_equalityI)
  show l: "length (map reset subjects') = length subjects"
    using assms(1) by (metis length_map)
  fix k assume "k < length (map reset subjects')"
  then have k: "k < length subjects" using l by simp
  then have k': "k < length subjects'" using l by simp
  have "static (subjects' ! k) = static (subjects ! k)"
    by (rule static_nth[OF assms(1) k])
  then have "reset (subjects' ! k) = subjects ! k"
    using well_formed_nth(1)[OF assms(2) k] by (rule reset_eq)
  then show "map reset subjects' ! k = subjects ! k" using k' by simp
qed

lemma evaluate_ok:
  assumes "well_formed subjects" "cursors_for subjects allocations"
  shows "\<exists>g'. evaluate subjects allocations g = Inr (subjects, g') \<and>
              permutations g' = permutations g \<and> evaluated g' = evaluated g"
proof -
  obtain gr s' where m: "materialize subjects allocations = Inr (gr, s')"
    using materialize_ok[OF assms] by blast
  have r: "map reset s' = subjects"
    using map_reset_eq[OF materialize_static[OF assms(2) m] assms(1)] .
  obtain sched where c: "create_schedule subjects allocations = Inr (sched, subjects)"
    using create_schedule_eq[OF m] r by simp
  show ?thesis
    unfolding evaluate_def using c by (simp add: Let_def)
qed

lemma cursors_for_length:
  "cursors_for subjects allocations \<Longrightarrow> length allocations = length subjects"
  by (simp add: cursors_for_def list_all2_lengthD)

lemma cursors_for_update:
  assumes "cursors_for subjects allocations" "i < length allocations"
    "private_array a' = private_array (allocations ! i)" "index a' < length (private_array a')"
  shows "cursors_for subjects (allocations[i := a'])"
  using assms
  by (auto simp: cursors_for_def list_all2_conv_all_nth nth_list_update)

lemma cursors_for_advance:
  assumes "cursors_for subjects allocations" "i < length allocations"
  shows "cursors_for subjects (allocations[i := advance (allocations ! i)])"
proof (rule cursors_for_update[OF assms])
  have "index (allocations ! i) < length (private_array (allocations ! i))"
    using assms by (auto simp: cursors_for_def list_all2_conv_all_nth)
  then show "private_array (advance (allocations ! i)) = private_array (allocations ! i)"
    "index (advance (allocations ! i)) < length (private_array (advance (allocations ! i)))"
    by (auto simp: advance_def)
qed

lemma cursors_for_reverse:
  assumes "cursors_for subjects allocations" "i < length allocations"
  shows "cursors_for subjects (allocations[i := reverse (allocations ! i)])"
proof (rule cursors_for_update[OF assms])
  have "index (allocations ! i) < length (private_array (allocations ! i))"
    using assms by (auto simp: cursors_for_def list_all2_conv_all_nth)
  then show "private_array (reverse (allocations ! i)) = private_array (allocations ! i)"
    "index (reverse (allocations ! i)) < length (private_array (reverse (allocations ! i)))"
    by (auto simp: reverse_def)
qed

lemma cursors_for_reset:
  "reset_first_reached_end allocations = Some allocations' \<Longrightarrow>
   cursors_for subjects allocations \<Longrightarrow> cursors_for subjects allocations'"
proof (induction allocations arbitrary: subjects allocations')
  case Nil
  then show ?case by simp
next
  case (Cons a as)
  from Cons.prems(2) obtain s ss where s: "subjects = s # ss"
    and h: "private_array a = private_array (Allocation s)" "index a < length (private_array a)"
    and t: "cursors_for ss as"
    by (auto simp: cursors_for_def list_all2_Cons2)
  show ?case
  proof (cases "has_reached_end a")
    case True
    then have "allocations' = reset_end_status a # as" using Cons.prems(1) by simp
    then show ?thesis
      using h t s by (simp add: cursors_for_def reset_end_status_def)
  next
    case False
    then obtain as' where a: "reset_first_reached_end as = Some as'" "allocations' = a # as'"
      using Cons.prems(1) by auto
    have "cursors_for ss as'" by (rule Cons.IH[OF a(1) t])
    then show ?thesis using h s a(2) by (simp add: cursors_for_def)
  qed
qed

lemma percolate_loop_walk:
  assumes ih: "\<And>allocations g a' S T.
      cursors_for subjects allocations \<Longrightarrow>
      walk depth allocations (permutations g) (evaluated g) = Some (a', S, T) \<Longrightarrow>
      cursors_for subjects a' \<and>
      (\<exists>g'. percolate depth subjects allocations g = Some (Inr (subjects, a', g')) \<and>
            permutations g' = S \<and> evaluated g' = T)"
  shows "cursors_for subjects allocations \<Longrightarrow> \<forall>i \<in> set is. i < length subjects \<Longrightarrow>
      walk_loop depth is allocations (permutations g) (evaluated g) = Some (a', S, T) \<Longrightarrow>
      cursors_for subjects a' \<and>
      (\<exists>g'. percolate_loop depth is subjects allocations g = Some (Inr (subjects, a', g')) \<and>
            permutations g' = S \<and> evaluated g' = T)"
proof (induction "is" arbitrary: allocations g)
  case Nil
  then show ?case by simp
next
  case (Cons i "is")
  let ?adv = "allocations[i := advance (allocations ! i)]"
  have i: "i < length allocations"
    using Cons.prems(1,2) cursors_for_length by simp
  have ca: "cursors_for subjects ?adv" by (rule cursors_for_advance[OF Cons.prems(1) i])
  from Cons.prems(3) obtain a1 S1 T1 where
    w1: "walk depth ?adv (permutations g) (evaluated g) = Some (a1, S1, T1)"
    and w2: "walk_loop depth is (a1[i := reverse (a1 ! i)]) S1 T1 = Some (a', S, T)"
    by (auto split: option.splits)
  from ih[OF ca w1] obtain g1 where c1: "cursors_for subjects a1"
    and p1: "percolate depth subjects ?adv g = Some (Inr (subjects, a1, g1))"
    and e1: "permutations g1 = S1" "evaluated g1 = T1"
    by blast
  have i1: "i < length a1" using c1 Cons.prems(2) cursors_for_length by simp
  have cr: "cursors_for subjects (a1[i := reverse (a1 ! i)])"
    by (rule cursors_for_reverse[OF c1 i1])
  have w2': "walk_loop depth is (a1[i := reverse (a1 ! i)]) (permutations g1) (evaluated g1) =
      Some (a', S, T)"
    using w2 e1 by simp
  have r: "\<forall>i \<in> set is. i < length subjects" using Cons.prems(2) by simp
  from Cons.IH[OF cr r w2'] obtain g' where c': "cursors_for subjects a'"
    and p': "percolate_loop depth is subjects (a1[i := reverse (a1 ! i)]) g1 =
        Some (Inr (subjects, a', g'))"
    and e': "permutations g' = S" "evaluated g' = T"
    by blast
  have "percolate_loop depth (i # is) subjects allocations g = Some (Inr (subjects, a', g'))"
    using p1 p' by simp
  then show ?case using c' e' by blast
qed

lemma percolate_walk:
  assumes wf: "well_formed subjects"
  shows "cursors_for subjects allocations \<Longrightarrow>
      walk depth allocations (permutations g) (evaluated g) = Some (a', S, T) \<Longrightarrow>
      cursors_for subjects a' \<and>
      (\<exists>g'. percolate depth subjects allocations g = Some (Inr (subjects, a', g')) \<and>
            permutations g' = S \<and> evaluated g' = T)"
proof (induction depth arbitrary: allocations g a' S T)
  case 0
  then show ?case by simp
next
  case (Suc depth)
  show ?case
  proof (cases "reset_first_reached_end allocations")
    case (Some a1)
    then have e: "a' = a1" "S = permutations g" "T = evaluated g"
      using Suc.prems(2) by simp_all
    have "cursors_for subjects a'" using cursors_for_reset[OF Some Suc.prems(1)] e by simp
    moreover have "percolate (Suc depth) subjects allocations g = Some (Inr (subjects, a', g))"
      using Some e by simp
    ultimately show ?thesis using e by blast
  next
    case None
    from Suc.prems(2) None obtain perm where pc: "perm_check allocations = Inr perm"
      by (cases "perm_check allocations") simp_all
    show ?thesis
    proof (cases "perm \<in> permutations g")
      case True
      then have e: "a' = allocations" "S = permutations g" "T = evaluated g"
        using Suc.prems(2) None pc by simp_all
      have "percolate (Suc depth) subjects allocations g = Some (Inr (subjects, a', g))"
        using None pc True e by simp
      then show ?thesis using e Suc.prems(1) by blast
    next
      case False
      let ?g = "g\<lparr>permutations := insert perm (permutations g),
                    evaluated := evaluated g @ [perm]\<rparr>"
      obtain g1 where ev: "evaluate subjects allocations ?g = Inr (subjects, g1)"
        and e1: "permutations g1 = insert perm (permutations g)"
          "evaluated g1 = evaluated g @ [perm]"
        using evaluate_ok[OF wf Suc.prems(1), of ?g] by auto
      have w: "walk_loop depth [0..<length allocations] allocations
                 (permutations g1) (evaluated g1) = Some (a', S, T)"
        using Suc.prems(2) None pc False e1 by simp
      have r: "\<forall>i \<in> set [0..<length allocations]. i < length subjects"
        using cursors_for_length[OF Suc.prems(1)] by simp
      have "cursors_for subjects a' \<and>
        (\<exists>g'. percolate_loop depth [0..<length allocations] subjects allocations g1 =
                 Some (Inr (subjects, a', g')) \<and>
              permutations g' = S \<and> evaluated g' = T)"
      proof (rule percolate_loop_walk[OF _ Suc.prems(1) r w])
        fix allocations a' S T and g :: globals
        assume "cursors_for subjects allocations"
          "walk depth allocations (permutations g) (evaluated g) = Some (a', S, T)"
        then show "cursors_for subjects a' \<and>
          (\<exists>g'. percolate depth subjects allocations g = Some (Inr (subjects, a', g')) \<and>
                permutations g' = S \<and> evaluated g' = T)"
          by (rule Suc.IH)
      qed
      moreover have "percolate (Suc depth) subjects allocations g =
          percolate_loop depth [0..<length allocations] subjects allocations g1"
        using None pc False ev by simp
      ultimately show ?thesis by simp
    qed
  qed
qed

section \<open>The run that skips a combination\<close>

lemma percolate_loop_deeper:
  assumes ih: "\<And>subjects allocations g r.
      percolate depth subjects allocations g = Some r \<Longrightarrow>
      percolate (Suc depth) subjects allocations g = Some r"
  shows "percolate_loop depth is subjects allocations g = Some r \<Longrightarrow>
         percolate_loop (Suc depth) is subjects allocations g = Some r"
proof (induction "is" arbitrary: subjects allocations g)
  case Nil
  then show ?case by simp
next
  case (Cons i "is")
  let ?adv = "allocations[i := advance (allocations ! i)]"
  from Cons.prems obtain r1 where r1: "percolate depth subjects ?adv g = Some r1"
    by (cases "percolate depth subjects ?adv g") auto
  have r1': "percolate (Suc depth) subjects ?adv g = Some r1" by (rule ih[OF r1])
  show ?case
  proof (cases r1)
    case (Inl eg)
    then have "r = Inl eg" using Cons.prems r1 by simp
    then show ?thesis using r1' Inl by (simp del: percolate.simps)
  next
    case (Inr p)
    obtain s' a' g' where p: "p = (s', a', g')" by (cases p)
    have "percolate_loop depth is s' (a'[i := reverse (a' ! i)]) g' = Some r"
      using Cons.prems r1 Inr p by simp
    then have "percolate_loop (Suc depth) is s' (a'[i := reverse (a' ! i)]) g' = Some r"
      by (rule Cons.IH)
    then show ?thesis using r1' Inr p by (simp del: percolate.simps)
  qed
qed

lemma percolate_Suc:
  "percolate depth subjects allocations g = Some r \<Longrightarrow>
   percolate (Suc depth) subjects allocations g = Some r"
proof (induction depth arbitrary: subjects allocations g r)
  case 0
  then show ?case by simp
next
  case (Suc depth)
  show ?case
  proof (cases "reset_first_reached_end allocations")
    case (Some a')
    then show ?thesis using Suc.prems by simp
  next
    case None
    show ?thesis
    proof (cases "perm_check allocations")
      case (Inl e)
      then show ?thesis using Suc.prems None by simp
    next
      case (Inr perm)
      show ?thesis
      proof (cases "perm \<in> permutations g")
        case True
        then show ?thesis using Suc.prems None Inr by simp
      next
        case False
        let ?g = "g\<lparr>permutations := insert perm (permutations g),
                      evaluated := evaluated g @ [perm]\<rparr>"
        show ?thesis
        proof (cases "evaluate subjects allocations ?g")
          case (Inl eg)
          then show ?thesis using Suc.prems None Inr False by simp
        next
          case R: (Inr p)
          obtain s' g' where p: "p = (s', g')" by (cases p)
          have l: "percolate_loop depth [0..<length allocations] s' allocations g' = Some r"
            using Suc.prems None Inr False R p by simp
          have "percolate_loop (Suc depth) [0..<length allocations] s' allocations g' = Some r"
          proof (rule percolate_loop_deeper[OF _ l])
            fix subjects allocations r and g :: globals
            assume "percolate depth subjects allocations g = Some r"
            then show "percolate (Suc depth) subjects allocations g = Some r" by (rule Suc.IH)
          qed
          then show ?thesis
            using None Inr False R p by (simp del: percolate_loop.simps upt_Suc)
        qed
      qed
    qed
  qed
qed

lemma percolate_deeper:
  "percolate depth subjects allocations g = Some r \<Longrightarrow>
   percolate (depth + k) subjects allocations g = Some r"
  by (induction k) (simp_all add: percolate_Suc del: percolate.simps)

lemma slot_in_grid_hour:
  assumes "2 \<le> d" "d < 7" "8 \<le> h" "h < 20"
  shows "slot_in_grid (datetime d h 0, datetime d (Suc h) 0)"
proof (rule slot_in_gridI)
  have "in_grid (datetime d h (5 * 0))" by (rule in_grid_datetime) (use assms in simp_all)
  then show g: "in_grid (datetime d h 0)" by simp
  have t: "datetime d h 0 = 1440 * d + 60 * h" by (simp add: datetime_def)
  have "datetime d h 0 div 1440 = d"
    by (rule div_nat_eqI) (use t assms in simp_all)
  then show "datetime d (Suc h) 0 \<le> 1440 * (datetime d h 0 div 1440) + 1200"
    using assms by (simp add: datetime_def)
qed

lemma three_tutorials_well_formed: "well_formed three_tutorials"
proof -
  have s: "(9::nat) = Suc 8" "(10::nat) = Suc 9" "(11::nat) = Suc 10" "(12::nat) = Suc 11"
    by simp_all
  have "slot_in_grid (datetime d 8 0, datetime d 9 0)"
    "slot_in_grid (datetime d 9 0, datetime d 10 0)"
    "slot_in_grid (datetime d 10 0, datetime d 11 0)"
    "slot_in_grid (datetime d 11 0, datetime d 12 0)" if "2 \<le> d" "d < 7" for d
    using slot_in_grid_hour[OF that, of 8] slot_in_grid_hour[OF that, of 9]
      slot_in_grid_hour[OF that, of 10] slot_in_grid_hour[OF that, of 11]
    by (simp_all only: s[symmetric])
  then show ?thesis
    by (simp add: well_formed_def three_tutorials_def analysis_def algebra_def physics_def)
qed

lemma three_tutorials_arrays:
  "private_array (Allocation analysis) =
     [[True, False, False, False], [False, True, False, False],
      [False, False, True, False], [False, False, False, True]]"
  "private_array (Allocation algebra) =
     [[True, False, False], [False, True, False], [False, False, True]]"
  "private_array (Allocation physics) =
     [[True, False, False], [False, True, False], [False, False, True]]"
  by (simp_all add: Allocation_def analysis_def algebra_def physics_def sum_bools_def)

lemma three_tutorials_cursors: "cursors_for three_tutorials (map Allocation three_tutorials)"
  by (simp add: cursors_for_def three_tutorials_def three_tutorials_arrays)
     (simp add: Allocation_def)

lemma three_tutorials_walk:
  "map_option (\<lambda>(a, S, T). (length T, distinct T, skipped_combination \<in> set T,
                               skipped_combination \<in> S))
     (walk 24 (map Allocation three_tutorials) {} []) = Some (35, True, False, False)"
  by code_simp

section \<open>The two passes in the words of the specification\<close>

lemma set_slot_range: "set (slot_range slot) = set (ticks slot)"
  by (cases slot) (auto simp: slot_range_def ticks_iff)

lemma slot_in_grid_range: "slot_in_grid slot \<longleftrightarrow> list_all in_grid (slot_range slot)"
  by (simp add: slot_in_grid_def list_all_iff set_slot_range)

lemma range_free_iff: "range_free g slot \<longleftrightarrow> is_free g slot = Inr True"
  by (simp add: range_free_def list_all_iff set_slot_range is_free_True_iff)

lemma write_range_fill: "write_range g n slot = fill g n slot"
  by (rule ext) (simp add: write_range_def fill_apply set_slot_range)

lemma empty_grid_eq: "empty_grid = empty_schedule"
  by (rule ext) (simp add: empty_grid_def empty_schedule_apply)

lemma do_request_serve:
  assumes "grows empty_schedule g" "slot_in_grid (fst (snd r))"
  shows "do_request (g, subjects) r = Inr (serve (g, subjects) r)"
proof -
  obtain i sl c where r: "r = (i, sl, c)" by (cases r)
  have "slot_in_grid sl" using assms(2) r by simp
  then obtain b where b: "is_free g sl = Inr b"
    using is_free_defined[OF assms(1)] by blast
  have f: "range_free g sl = b" using b by (simp add: range_free_iff)
  show ?thesis
    unfolding r do_request_def serve_def
    by (simp add: b f write_range_fill mark_allocated_def)
qed

lemma run_requests_serve:
  assumes "\<forall>r \<in> set rs. slot_in_grid (fst (snd r))" "grows empty_schedule g"
  shows "run_requests rs (g, subjects) = Inr (foldl serve (g, subjects) rs)"
  using assms
proof (induction rs arbitrary: g subjects)
  case Nil
  then show ?case by simp
next
  case (Cons r rs)
  have "slot_in_grid (fst (snd r))" using Cons.prems(1) by simp
  then have d: "do_request (g, subjects) r = Inr (serve (g, subjects) r)"
    by (rule do_request_serve[OF Cons.prems(2)])
  obtain g1 s1 where st1: "serve (g, subjects) r = (g1, s1)" by (cases "serve (g, subjects) r")
  have "grows empty_schedule g1"
    using grows_trans[OF Cons.prems(2) do_request_grows[OF d[unfolded st1]]] .
  then have "run_requests rs (g1, s1) = Inr (foldl serve (g1, s1) rs)"
    using Cons.IH[of g1 s1] Cons.prems(1) by simp
  then show ?case using d st1 by simp
qed

lemma materialize_serve:
  assumes "cursors_for subjects allocations" "slots_on_grid subjects"
  shows "materialize subjects allocations = Inr (two_passes subjects (map current allocations))"
proof -
  let ?rs = "first_come_requests subjects (map current allocations) @ fill_requests subjects"
  have g: "slot_in_grid sl" if "k < length subjects" "sl \<in> set (times_list (subjects ! k))"
    for k sl
  proof -
    have "subjects ! k \<in> set subjects" using that(1) by simp
    then show ?thesis
      using assms(2) that(2)
      by (simp add: slots_on_grid_def list_all_iff slot_in_grid_range)
  qed
  have "\<forall>r \<in> set ?rs. slot_in_grid (fst (snd r))"
    using request_slots g by blast
  then have "run_requests ?rs (empty_schedule, subjects) =
      Inr (foldl serve (empty_schedule, subjects) ?rs)"
    by (rule run_requests_serve[OF _ grows_refl])
  then show ?thesis
    using materialize_requests[OF assms(1)]
    by (simp add: spec_materialize_def two_passes_def empty_grid_eq)
qed

lemma clash_cursors: "cursors_for clash cursors_c"
  by (simp add: cursors_for_def clash_def cursors_c_def example_arrays)
     (simp add: Allocation_def block_def any_true_def)

lemma clash_current: "map current cursors_c = [[False, True], [True, True]]"
  by (simp add: cursors_c_def current_def example_arrays)
     (simp add: Allocation_def block_def any_true_def)

lemma in_slot_range: "t \<in> set (slot_range (a, b)) \<longleftrightarrow> a \<le> t \<and> t < b \<and> 5 dvd (t - a)"
  by (auto simp: slot_range_def)

lemma range_free_empty: "slot_in_grid slot \<Longrightarrow> range_free empty_grid slot"
  by (simp add: range_free_iff empty_grid_eq is_free_empty_schedule)

lemma range_free_write_disjoint:
  "set (slot_range slot) \<inter> set (slot_range slot') = {} \<Longrightarrow>
   range_free (write_range g n slot') slot = range_free g slot"
  by (auto simp: range_free_def list_all_iff write_range_def)

lemma not_range_free: "t \<in> set (slot_range slot) \<Longrightarrow> g t \<noteq> Some [] \<Longrightarrow> \<not> range_free g slot"
  by (auto simp: range_free_def list_all_iff)

lemma mo_8_10_numeral: "mo_8_10 = (3360, 3480)"
  by (simp add: mo_8_10_def datetime_def)

lemma mo_8_10_in_grid: "slot_in_grid mo_8_10"
  unfolding mo_8_10_numeral by (rule slot_in_gridI, simp add: in_grid_examples, simp)

lemma clash_on_grid: "slots_on_grid clash"
  using example_slots_in_grid mo_8_10_in_grid
  by (simp add: slots_on_grid_def clash_def tutorial_def block_def slot_in_grid_range)

lemma clash_requests:
  "first_come_requests clash [[False, True], [True, True]] =
     [(0, mo_9_10, False), (Suc 0, mo_8_10, False), (Suc 0, di_8_9, False)]"
  "fill_requests clash = [(Suc 0, mo_8_10, True), (Suc 0, di_8_9, True)]"
  by (simp_all add: first_come_requests_def fill_requests_def clash_def tutorial_def block_def)

lemma clash_free:
  "range_free empty_grid mo_9_10"
  "\<not> range_free (write_range empty_grid ''tutorial'' mo_9_10) mo_8_10"
  "range_free (write_range empty_grid ''tutorial'' mo_9_10) di_8_9"
  "\<not> range_free (write_range (write_range empty_grid ''tutorial'' mo_9_10) ''block'' di_8_9)
       mo_8_10"
proof -
  show "range_free empty_grid mo_9_10"
    by (rule range_free_empty[OF example_slots_in_grid(2)])
  have t: "3420 \<in> set (slot_range mo_8_10)" "3420 \<in> set (slot_range mo_9_10)"
    "3420 \<notin> set (slot_range di_8_9)"
    by (simp_all add: mo_8_10_numeral slots_numeral in_slot_range)
  show "\<not> range_free (write_range empty_grid ''tutorial'' mo_9_10) mo_8_10"
    by (rule not_range_free[OF t(1)]) (simp add: write_range_def t)
  have d: "set (slot_range di_8_9) \<inter> set (slot_range mo_9_10) = {}"
    by (auto simp: slots_numeral in_slot_range)
  show "range_free (write_range empty_grid ''tutorial'' mo_9_10) di_8_9"
    unfolding range_free_write_disjoint[OF d]
    by (rule range_free_empty[OF example_slots_in_grid(3)])
  show "\<not> range_free (write_range (write_range empty_grid ''tutorial'' mo_9_10) ''block'' di_8_9)
       mo_8_10"
    by (rule not_range_free[OF t(1)]) (simp add: write_range_def t)
qed

lemma clash_two_passes:
  "two_passes clash [[False, True], [True, True]] =
     (write_range (write_range empty_grid ''tutorial'' mo_9_10) ''block'' di_8_9,
      [tutorial\<lparr>allocated_times := {mo_9_10}\<rparr>, block\<lparr>allocated_times := {di_8_9}\<rparr>])"
proof -
  have ne: "mo_8_10 \<noteq> di_8_9" by (simp add: mo_8_10_numeral slots_numeral)
  have a: "allocated_times tutorial = {}" "allocated_times block = {}"
    "name tutorial = ''tutorial''" "name block = ''block''"
    by (simp_all add: tutorial_def block_def)
  show ?thesis
    unfolding two_passes_def clash_requests
    by (simp add: serve_def clash_def clash_free a ne)
qed

lemma clash_table:
  "fst (two_passes clash [[False, True], [True, True]]) (datetime 2 8 0) = Some []"
  "fst (two_passes clash [[False, True], [True, True]]) (datetime 2 9 0) = Some ''tutorial''"
  "fst (two_passes clash [[False, True], [True, True]]) (datetime 3 8 0) = Some ''block''"
proof -
  have g: "in_grid 3360" by (rule in_grid_examples(1))
  show "fst (two_passes clash [[False, True], [True, True]]) (datetime 2 8 0) = Some []"
    unfolding clash_two_passes
    by (simp add: write_range_def slots_numeral in_slot_range datetime_def empty_grid_def g)
  show "fst (two_passes clash [[False, True], [True, True]]) (datetime 2 9 0) = Some ''tutorial''"
    unfolding clash_two_passes
    by (simp add: write_range_def slots_numeral in_slot_range datetime_def)
  show "fst (two_passes clash [[False, True], [True, True]]) (datetime 3 8 0) = Some ''block''"
    unfolding clash_two_passes
    by (simp add: write_range_def slots_numeral in_slot_range datetime_def)
qed

lemma clash_allocated:
  "map allocated_times (snd (two_passes clash [[False, True], [True, True]])) =
     [{mo_9_10}, {di_8_9}]"
  "mo_8_10 \<notin> allocated_times (snd (two_passes clash [[False, True], [True, True]]) ! Suc 0)"
  unfolding clash_two_passes by (simp_all add: mo_8_10_numeral slots_numeral)

section \<open>The run of the lecture alone\<close>

lemma percolate_flagged:
  "reset_first_reached_end allocations = Some a' \<Longrightarrow>
   percolate (Suc depth) subjects allocations g = Some (Inr (subjects, a', g))"
  by simp

lemma percolate_fresh:
  assumes "reset_first_reached_end allocations = None" "perm_check allocations = Inr perm"
    "perm \<notin> permutations g"
    "evaluate subjects allocations
       (g\<lparr>permutations := insert perm (permutations g), evaluated := evaluated g @ [perm]\<rparr>) =
     Inr (subjects', g')"
  shows "percolate (Suc depth) subjects allocations g =
         percolate_loop depth [0..<length allocations] subjects' allocations g'"
  using assms by simp

lemma percolate_loop_single:
  assumes "percolate depth subjects [advance a] g = Some (Inr (subjects', [a'], g'))"
  shows "percolate_loop depth [0..<length [a]] subjects [a] g =
         Some (Inr (subjects', [reverse a'], g'))"
  using assms by simp

lemma lecture_cursor_eq:
  "lecture_cursor k =
     \<lparr>index = k, has_reached_end = False,
      private_array = [[True, True], [True, False], [False, True]]\<rparr>"
  using example_arrays(2) by (simp add: lecture_cursor_def Allocation_def)

lemma lecture_cursor_0: "Allocation lecture = lecture_cursor 0"
  by (simp add: lecture_cursor_def Allocation_def)

lemma lecture_moves:
  "advance (lecture_cursor 0) = lecture_cursor (Suc 0)"
  "advance (lecture_cursor (Suc 0)) = lecture_cursor (Suc (Suc 0))"
  "reset_first_reached_end [advance (lecture_cursor (Suc (Suc 0)))] =
     Some [lecture_cursor (Suc (Suc 0))]"
  "reverse (lecture_cursor (Suc (Suc 0))) = lecture_cursor (Suc 0)"
  "reverse (lecture_cursor (Suc 0)) = lecture_cursor 0"
  "reverse (lecture_cursor 0) = lecture_cursor 0"
  "reset_first_reached_end [lecture_cursor k] = None"
  by (simp_all add: lecture_cursor_eq advance_def reverse_def reset_end_status_def)

lemma lecture_perms:
  "perm_check [lecture_cursor 0] = Inr [[True, True]]"
  "perm_check [lecture_cursor (Suc 0)] = Inr [[True, False]]"
  "perm_check [lecture_cursor (Suc (Suc 0))] = Inr [[False, True]]"
  by (simp_all add: lecture_cursor_eq get_array_def)

lemma lecture_cursors: "k < 3 \<Longrightarrow> cursors_for [lecture] [lecture_cursor k]"
  using example_arrays(2) by (simp add: cursors_for_def lecture_cursor_def)

lemma lecture_current:
  "map current [lecture_cursor 0] = [[True, True]]"
  "map current [lecture_cursor (Suc 0)] = [[True, False]]"
  "map current [lecture_cursor (Suc (Suc 0))] = [[False, True]]"
  by (simp_all add: current_def lecture_cursor_eq)

lemma lecture_on_grid: "slots_on_grid [lecture]"
  using example_slots_in_grid
  by (simp add: slots_on_grid_def lecture_def slot_in_grid_range)

lemma lecture_free:
  "range_free empty_grid mo_8_9" "range_free empty_grid di_8_9"
  "range_free (write_range empty_grid ''lecture'' mo_8_9) di_8_9"
  "range_free (write_range empty_grid ''lecture'' di_8_9) mo_8_9"
proof -
  have d: "set (slot_range di_8_9) \<inter> set (slot_range mo_8_9) = {}"
    "set (slot_range mo_8_9) \<inter> set (slot_range di_8_9) = {}"
    by (auto simp: slots_numeral in_slot_range)
  show "range_free empty_grid mo_8_9" "range_free empty_grid di_8_9"
    by (rule range_free_empty[OF example_slots_in_grid(1)])
       (rule range_free_empty[OF example_slots_in_grid(3)])
  then show "range_free (write_range empty_grid ''lecture'' mo_8_9) di_8_9"
    "range_free (write_range empty_grid ''lecture'' di_8_9) mo_8_9"
    by (simp_all only: range_free_write_disjoint[OF d(1)] range_free_write_disjoint[OF d(2)])
qed

lemma lecture_table_commute:
  "write_range (write_range empty_grid ''lecture'' di_8_9) ''lecture'' mo_8_9 =
   write_range (write_range empty_grid ''lecture'' mo_8_9) ''lecture'' di_8_9"
  by (rule ext) (simp add: write_range_def)

lemma lecture_two_passes:
  assumes "c \<in> {[[True, True]], [[True, False]], [[False, True]]}"
  shows "two_passes [lecture] c =
     (fill (fill empty_schedule ''lecture'' mo_8_9) ''lecture'' di_8_9,
      [lecture\<lparr>allocated_times := {mo_8_9, di_8_9}\<rparr>])"
proof -
  have ne: "mo_8_9 \<noteq> di_8_9" "di_8_9 \<noteq> mo_8_9" by (simp_all add: slots_numeral)
  have a: "allocated_times lecture = {}" "name lecture = ''lecture''"
    by (simp_all add: lecture_def)
  have s: "{di_8_9, mo_8_9} = {mo_8_9, di_8_9}" by auto
  have f: "fill_requests [lecture] = [(0, mo_8_9, True), (0, di_8_9, True)]"
    by (simp add: fill_requests_def lecture_def)
  have r: "first_come_requests [lecture] [[True, True]] =
       [(0, mo_8_9, False), (0, di_8_9, False)]"
    "first_come_requests [lecture] [[True, False]] = [(0, mo_8_9, False)]"
    "first_come_requests [lecture] [[False, True]] = [(0, di_8_9, False)]"
    by (simp_all add: first_come_requests_def lecture_def)
  have t: "two_passes [lecture] [[True, True]] =
      (write_range (write_range empty_grid ''lecture'' mo_8_9) ''lecture'' di_8_9,
       [lecture\<lparr>allocated_times := {mo_8_9, di_8_9}\<rparr>])"
    "two_passes [lecture] [[True, False]] =
      (write_range (write_range empty_grid ''lecture'' mo_8_9) ''lecture'' di_8_9,
       [lecture\<lparr>allocated_times := {mo_8_9, di_8_9}\<rparr>])"
    "two_passes [lecture] [[False, True]] =
      (write_range (write_range empty_grid ''lecture'' mo_8_9) ''lecture'' di_8_9,
       [lecture\<lparr>allocated_times := {mo_8_9, di_8_9}\<rparr>])"
    unfolding two_passes_def r f
    by (simp_all add: serve_def lecture_free a ne s lecture_table_commute)
  show ?thesis
    using assms t by (auto simp: write_range_fill empty_grid_eq)
qed

lemma lecture_create:
  assumes "k < 3"
  shows "create_schedule [lecture] [lecture_cursor k] = Inr (lecture_schedule, [lecture])"
proof -
  have "k = 0 \<or> k = Suc 0 \<or> k = Suc (Suc 0)" using assms by arith
  then have c: "map current [lecture_cursor k] \<in>
      {[[True, True]], [[True, False]], [[False, True]]}"
    using lecture_current by auto
  have m: "materialize [lecture] [lecture_cursor k] =
      Inr (fill (fill empty_schedule ''lecture'' mo_8_9) ''lecture'' di_8_9,
           [lecture\<lparr>allocated_times := {mo_8_9, di_8_9}\<rparr>])"
    unfolding materialize_serve[OF lecture_cursors[OF assms] lecture_on_grid]
    by (simp only: lecture_two_passes[OF c])
  have ne: "mo_8_9 \<noteq> di_8_9" by (simp add: slots_numeral)
  have a: "is_partially_complete (lecture\<lparr>allocated_times := {mo_8_9, di_8_9}\<rparr>)"
    "is_complete (lecture\<lparr>allocated_times := {mo_8_9, di_8_9}\<rparr>)"
    "reset (lecture\<lparr>allocated_times := {mo_8_9, di_8_9}\<rparr>) = lecture"
    using ne by (auto simp: is_partially_complete_def is_complete_def reset_def lecture_def)
  show ?thesis
    unfolding create_schedule_eq[OF m] using a by (simp add: lecture_schedule_def)
qed

lemma lecture_evaluate:
  "evaluate [lecture] [lecture_cursor 0]
     (init_globals\<lparr>permutations := insert [[True, True]] (permutations init_globals),
                   evaluated := evaluated init_globals @ [[[True, True]]]\<rparr>) =
   Inr ([lecture], \<lparr>version = 1, duplicates = 0, saved_schedules = [lecture_schedule],
                    permutations = {[[True, True]]}, evaluated = [[[True, True]]]\<rparr>)"
  "evaluate [lecture] [lecture_cursor (Suc 0)] lecture_stored =
   Inr ([lecture], lecture_stored\<lparr>duplicates := duplicates lecture_stored + 1\<rparr>)"
  "evaluate [lecture] [lecture_cursor (Suc (Suc 0))]
     (lecture_stored\<lparr>duplicates := duplicates lecture_stored + 1,
        permutations := insert [[False, True]] (permutations lecture_stored),
        evaluated := evaluated lecture_stored @ [[[False, True]]]\<rparr>) =
   Inr ([lecture], lecture_globals)"
proof -
  have t: "table lecture_schedule =
      Some (fill (fill empty_schedule ''lecture'' mo_8_9) ''lecture'' di_8_9)"
    by (simp add: lecture_schedule_def)
  show "evaluate [lecture] [lecture_cursor 0]
     (init_globals\<lparr>permutations := insert [[True, True]] (permutations init_globals),
                   evaluated := evaluated init_globals @ [[[True, True]]]\<rparr>) =
   Inr ([lecture], \<lparr>version = 1, duplicates = 0, saved_schedules = [lecture_schedule],
                    permutations = {[[True, True]]}, evaluated = [[[True, True]]]\<rparr>)"
    unfolding evaluate_accepted[OF lecture_create t, of 0, simplified]
    by (simp add: init_globals_def)
  show "evaluate [lecture] [lecture_cursor (Suc 0)] lecture_stored =
   Inr ([lecture], lecture_stored\<lparr>duplicates := duplicates lecture_stored + 1\<rparr>)"
    unfolding evaluate_accepted[OF lecture_create t, of "Suc 0", simplified]
    by (simp add: lecture_stored_def t)
  show "evaluate [lecture] [lecture_cursor (Suc (Suc 0))]
     (lecture_stored\<lparr>duplicates := duplicates lecture_stored + 1,
        permutations := insert [[False, True]] (permutations lecture_stored),
        evaluated := evaluated lecture_stored @ [[[False, True]]]\<rparr>) =
   Inr ([lecture], lecture_globals)"
    unfolding evaluate_accepted[OF lecture_create t, of "Suc (Suc 0)", simplified]
    by (simp add: lecture_stored_def lecture_globals_def t)
qed

lemma lecture_run:
  "run 4 [lecture] = Some (Inr ([lecture], [Allocation lecture], lecture_globals))"
proof -
  let ?c0 = "lecture_cursor 0" and ?c1 = "lecture_cursor (Suc 0)"
    and ?c2 = "lecture_cursor (Suc (Suc 0))"
  let ?g1 = "\<lparr>version = 1, duplicates = 0, saved_schedules = [lecture_schedule],
              permutations = {[[True, True]]}, evaluated = [[[True, True]]]\<rparr>"
  let ?g2 = "lecture_stored\<lparr>duplicates := duplicates lecture_stored + 1\<rparr>"
  have four: "(4::nat) = Suc (Suc (Suc (Suc 0)))" by simp
  have l4: "percolate (Suc 0) [lecture] [advance ?c2] lecture_globals =
      Some (Inr ([lecture], [?c2], lecture_globals))"
    by (rule percolate_flagged[OF lecture_moves(3)])
  have p3: "percolate_loop (Suc 0) [0..<length [?c2]] [lecture] [?c2] lecture_globals =
      Some (Inr ([lecture], [?c1], lecture_globals))"
    using percolate_loop_single[OF l4] by (simp only: lecture_moves(4))
  have n2: "[[False, True]] \<notin> permutations ?g2" by (simp add: lecture_stored_def)
  have e2: "evaluate [lecture] [?c2]
      (?g2\<lparr>permutations := insert [[False, True]] (permutations ?g2),
           evaluated := evaluated ?g2 @ [[[False, True]]]\<rparr>) = Inr ([lecture], lecture_globals)"
    using lecture_evaluate(3) by simp
  have l3: "percolate (Suc (Suc 0)) [lecture] [advance ?c1] ?g2 =
      Some (Inr ([lecture], [?c1], lecture_globals))"
    unfolding lecture_moves(2)
    by (simp only: percolate_fresh[OF lecture_moves(7) lecture_perms(3) n2 e2] p3)
  have p2: "percolate_loop (Suc (Suc 0)) [0..<length [?c1]] [lecture] [?c1] ?g2 =
      Some (Inr ([lecture], [?c0], lecture_globals))"
    using percolate_loop_single[OF l3] by (simp only: lecture_moves(5))
  have n1: "[[True, False]] \<notin> permutations ?g1" by simp
  have s: "?g1\<lparr>permutations := insert [[True, False]] (permutations ?g1),
               evaluated := evaluated ?g1 @ [[[True, False]]]\<rparr> = lecture_stored"
    by (simp add: lecture_stored_def)
  have e1: "evaluate [lecture] [?c1]
      (?g1\<lparr>permutations := insert [[True, False]] (permutations ?g1),
           evaluated := evaluated ?g1 @ [[[True, False]]]\<rparr>) = Inr ([lecture], ?g2)"
    unfolding s by (rule lecture_evaluate(2))
  have l2: "percolate (Suc (Suc (Suc 0))) [lecture] [advance ?c0] ?g1 =
      Some (Inr ([lecture], [?c0], lecture_globals))"
    unfolding lecture_moves(1)
    by (simp only: percolate_fresh[OF lecture_moves(7) lecture_perms(2) n1 e1] p2)
  have p1: "percolate_loop (Suc (Suc (Suc 0))) [0..<length [?c0]] [lecture] [?c0] ?g1 =
      Some (Inr ([lecture], [?c0], lecture_globals))"
    using percolate_loop_single[OF l2] by (simp only: lecture_moves(6))
  have n0: "[[True, True]] \<notin> permutations init_globals" by (simp add: init_globals_def)
  have l1: "percolate (Suc (Suc (Suc (Suc 0)))) [lecture] [?c0] init_globals =
      Some (Inr ([lecture], [?c0], lecture_globals))"
    by (simp only: percolate_fresh[OF lecture_moves(7) lecture_perms(1) n0 lecture_evaluate(1)]
        p1)
  show ?thesis
    unfolding run_def four using l1 by (simp add: lecture_cursor_0)
qed

section \<open>The claims about the materializer, the classifier and the traversal\<close>

text \<open>
  Claim C3. For the cursors of a run, the two loops of \<open>create_schedule\<close> over a
  fresh empty table serve the requests of the combination the cursors stand on in the
  order of the specification (\<open>spec_materialize\<close>): first the selected slots, subjects
  in list order and slots in declaration order; then, for every lecture (\<open>VO\<close>), each
  of its slots that is not yet allocated, whatever the selection vector says. When the
  slots lie on the week's grid, the result is that of the specification's two passes
  (\<open>two_passes\<close>), which are stated without the code's \<^verbatim>\<open>is_free\<close> and \<^verbatim>\<open>fill\<close>: from
  the empty grid, a request writes the subject's name into every tick of the slot's
  range (start inclusive, end exclusive, steps of five minutes) and marks the slot
  allocated when every tick of the range is a cell without a name, and otherwise
  changes nothing, so that a conflicting slot is skipped whole and the first writer
  keeps its ticks. After the two passes every slot of a lecture is allocated to it or
  has a range that is not free in the final table, so what a lecture ends up with is
  not bounded by its selection vector.
\<close>

theorem materialize_two_passes:
  assumes "cursors_for subjects allocations"
  shows "materialize subjects allocations = spec_materialize subjects (map current allocations) \<and>
         (slots_on_grid subjects \<longrightarrow>
            materialize subjects allocations =
              Inr (two_passes subjects (map current allocations))) \<and>
         (\<forall>g subjects'. materialize subjects allocations = Inr (g, subjects') \<longrightarrow>
            (\<forall>k < length subjects. type (subjects ! k) = VO \<longrightarrow>
               (\<forall>sl \<in> set (times_list (subjects ! k)).
                  sl \<in> allocated_times (subjects' ! k) \<or>
                  is_free g sl = Inr False \<and> \<not> range_free g sl)))"
proof (intro conjI allI impI ballI)
  show "materialize subjects allocations = spec_materialize subjects (map current allocations)"
    by (rule materialize_requests[OF assms])
next
  assume "slots_on_grid subjects"
  then show "materialize subjects allocations =
      Inr (two_passes subjects (map current allocations))"
    by (rule materialize_serve[OF assms])
next
  fix g subjects' k sl
  assume m: "materialize subjects allocations = Inr (g, subjects')"
    and k: "k < length subjects" "type (subjects ! k) = VO"
    and sl: "sl \<in> set (times_list (subjects ! k))"
  let ?rs = "first_come_requests subjects (map current allocations) @ fill_requests subjects"
  have "(k, sl, True) \<in> set ?rs" using k sl by (simp add: fill_requests_iff)
  then have "served (g, subjects') (k, sl, True)"
    using run_requests_serves[OF materialize_run[OF assms m] requests_in_range] by blast
  then show "sl \<in> allocated_times (subjects' ! k) \<or>
      is_free g sl = Inr False \<and> \<not> range_free g sl"
    by (auto simp add: served_def range_free_iff)
qed

theorem materialize_two_passes_witness:
  "cursors_for clash cursors_c \<and> slots_on_grid clash \<and>
   map current cursors_c = [[False, True], [True, True]] \<and>
   materialize clash cursors_c = spec_materialize clash (map current cursors_c) \<and>
   materialize clash cursors_c = Inr (two_passes clash [[False, True], [True, True]]) \<and>
   two_passes clash [[False, True], [True, True]] =
     (write_range (write_range empty_grid ''tutorial'' mo_9_10) ''block'' di_8_9,
      [tutorial\<lparr>allocated_times := {mo_9_10}\<rparr>, block\<lparr>allocated_times := {di_8_9}\<rparr>]) \<and>
   fst (two_passes clash [[False, True], [True, True]]) (datetime 2 8 0) = Some [] \<and>
   fst (two_passes clash [[False, True], [True, True]]) (datetime 2 9 0) = Some ''tutorial'' \<and>
   type (clash ! Suc 0) = VO \<and> times_list (clash ! Suc 0) ! 0 = mo_8_10 \<and>
   mo_8_10 \<notin> allocated_times (snd (two_passes clash [[False, True], [True, True]]) ! Suc 0) \<and>
   is_free (fst (two_passes clash [[False, True], [True, True]])) mo_8_10 = Inr False \<and>
   \<not> range_free (fst (two_passes clash [[False, True], [True, True]])) mo_8_10"
proof -
  let ?r = "two_passes clash [[False, True], [True, True]]"
  note t = materialize_two_passes[OF clash_cursors]
  have a: "materialize clash cursors_c = spec_materialize clash (map current cursors_c)"
    using t by (rule conjunct1)
  have "slots_on_grid clash \<longrightarrow>
      materialize clash cursors_c = Inr (two_passes clash (map current cursors_c))"
    using t by blast
  then have b: "materialize clash cursors_c = Inr ?r"
    using clash_on_grid unfolding clash_current by (rule mp)
  have m: "materialize clash cursors_c = Inr (fst ?r, snd ?r)" using b by simp
  have c: "\<forall>k < length clash. type (clash ! k) = VO \<longrightarrow>
      (\<forall>sl \<in> set (times_list (clash ! k)).
         sl \<in> allocated_times (snd ?r ! k) \<or>
         is_free (fst ?r) sl = Inr False \<and> \<not> range_free (fst ?r) sl)"
    using t m by blast
  have k: "Suc 0 < length clash" "type (clash ! Suc 0) = VO"
    "mo_8_10 \<in> set (times_list (clash ! Suc 0))" "times_list (clash ! Suc 0) ! 0 = mo_8_10"
    by (simp_all add: clash_def block_def)
  have "mo_8_10 \<in> allocated_times (snd ?r ! Suc 0) \<or>
      is_free (fst ?r) mo_8_10 = Inr False \<and> \<not> range_free (fst ?r) mo_8_10"
    using c k(1,2,3) by blast
  then have d: "is_free (fst ?r) mo_8_10 = Inr False" "\<not> range_free (fst ?r) mo_8_10"
    using clash_allocated(2) by blast+
  show ?thesis
    using clash_cursors clash_on_grid clash_current a b clash_two_passes clash_table(1,2)
      k(2,4) clash_allocated(2) d
    by (intro conjI)
qed

text \<open>
  Claim C4. Let the subjects have non-empty names and start with empty allocated sets,
  and let the two passes produce a table. Then every tick of every slot allocated to a
  subject carries that subject's name in the table, so the allocated slots of two
  subjects with different names share no tick; and the guarded write
  (\<open>try_allocate\<close>) never changes a tick that already carries a name.
\<close>

theorem allocated_slots_do_not_overlap:
  assumes "cursors_for subjects allocations"
    and "\<forall>s \<in> set subjects. name s \<noteq> [] \<and> allocated_times s = {}"
    and "materialize subjects allocations = Inr (g, subjects')"
  shows "(\<forall>k < length subjects. \<forall>sl \<in> allocated_times (subjects' ! k). \<forall>t \<in> set (ticks sl).
            g t = Some (name (subjects ! k))) \<and>
         (\<forall>k < length subjects. \<forall>l < length subjects.
            name (subjects ! k) \<noteq> name (subjects ! l) \<longrightarrow>
            (\<forall>sl \<in> allocated_times (subjects' ! k). \<forall>sl' \<in> allocated_times (subjects' ! l).
               set (ticks sl) \<inter> set (ticks sl') = {})) \<and>
         (\<forall>g0 s sl g1 s1 t n.
            try_allocate g0 s sl = Inr (g1, s1) \<and> g0 t = Some n \<and> n \<noteq> [] \<longrightarrow> g1 t = Some n)"
proof (intro conjI)
  show a: "\<forall>k < length subjects. \<forall>sl \<in> allocated_times (subjects' ! k). \<forall>t \<in> set (ticks sl).
            g t = Some (name (subjects ! k))"
    using materialize_owns[OF assms] by blast
  show "\<forall>k < length subjects. \<forall>l < length subjects.
            name (subjects ! k) \<noteq> name (subjects ! l) \<longrightarrow>
            (\<forall>sl \<in> allocated_times (subjects' ! k). \<forall>sl' \<in> allocated_times (subjects' ! l).
               set (ticks sl) \<inter> set (ticks sl') = {})"
  proof (intro allI impI ballI)
    fix k l sl sl'
    assume k: "k < length subjects" and l: "l < length subjects"
      and ne: "name (subjects ! k) \<noteq> name (subjects ! l)"
      and sl: "sl \<in> allocated_times (subjects' ! k)" and sl': "sl' \<in> allocated_times (subjects' ! l)"
    show "set (ticks sl) \<inter> set (ticks sl') = {}"
    proof (rule ccontr)
      assume "set (ticks sl) \<inter> set (ticks sl') \<noteq> {}"
      then obtain t where t: "t \<in> set (ticks sl)" "t \<in> set (ticks sl')" by blast
      have "g t = Some (name (subjects ! k))" using a k sl t(1) by blast
      moreover have "g t = Some (name (subjects ! l))" using a l sl' t(2) by blast
      ultimately show False using ne by simp
    qed
  qed
  show "\<forall>g0 s sl g1 s1 t n.
            try_allocate g0 s sl = Inr (g1, s1) \<and> g0 t = Some n \<and> n \<noteq> [] \<longrightarrow> g1 t = Some n"
    using try_allocate_grows by (auto simp: grows_def)
qed

theorem allocated_slots_do_not_overlap_witness:
  "table_b (datetime 2 9 0) = Some ''tutorial'' \<and>
   set (ticks mo_9_10) \<inter> set (ticks mo_8_9) = {}"
proof -
  note t = allocated_slots_do_not_overlap[OF example_cursors example_fresh example_materialize]
  have a: "\<forall>k < length timetable. \<forall>sl \<in> allocated_times (timetable_b ! k).
             \<forall>t \<in> set (ticks sl). table_b t = Some (name (timetable ! k))"
    using t by (rule conjunct1)
  have b: "\<forall>k < length timetable. \<forall>l < length timetable.
            name (timetable ! k) \<noteq> name (timetable ! l) \<longrightarrow>
            (\<forall>sl \<in> allocated_times (timetable_b ! k). \<forall>sl' \<in> allocated_times (timetable_b ! l).
               set (ticks sl) \<inter> set (ticks sl') = {})"
    using t by blast
  have m: "datetime 2 9 0 \<in> set (ticks mo_9_10)"
    by (simp add: mo_9_10_def ticks_iff datetime_def)
  have k: "0 < length timetable" "Suc 0 < length timetable"
    "name (timetable ! 0) \<noteq> name (timetable ! Suc 0)"
    "mo_9_10 \<in> allocated_times (timetable_b ! 0)"
    "mo_8_9 \<in> allocated_times (timetable_b ! Suc 0)"
    by (simp_all add: example_allocated)
  have 1: "table_b (datetime 2 9 0) = Some (name (timetable ! 0))"
    using a k(1,4) m by blast
  have 2: "set (ticks mo_9_10) \<inter> set (ticks mo_8_9) = {}"
    using b k by blast
  show ?thesis using 1 2 by (simp add: example_allocated)
qed

text \<open>
  Claim C5. Let the two passes end with table \<open>g\<close> and subjects \<open>subjects'\<close>. If some
  subject has no allocated slot, \<open>create_schedule\<close> returns no table, and the
  traversal's evaluation step leaves the globals as they are: nothing is stored and
  no duplicate is counted (the stored schedules all have a table). Otherwise the
  schedule has the table \<open>g\<close>, and it is incomplete exactly when the allocated set of
  some lecture is a proper subset of its slots.
\<close>

theorem classification_outcomes:
  assumes "cursors_for subjects allocations"
    and "\<forall>s \<in> set subjects. allocated_times s = {}"
    and "materialize subjects allocations = Inr (g, subjects')"
  shows "if (\<exists>s \<in> set subjects'. allocated_times s = {})
         then (\<exists>inc. create_schedule subjects allocations =
                  Inr (\<lparr>table = None, is_incomplete = inc\<rparr>, map reset subjects')) \<and>
              (\<forall>gl. (\<forall>e \<in> set (saved_schedules gl). table e \<noteq> None) \<longrightarrow>
                  evaluate subjects allocations gl = Inr (map reset subjects', gl))
         else create_schedule subjects allocations =
                Inr (\<lparr>table = Some g,
                      is_incomplete = (\<exists>s \<in> set subjects'. type s = VO \<and>
                                         allocated_times s \<subset> set (times_list s))\<rparr>,
                     map reset subjects')"
proof (cases "\<exists>s \<in> set subjects'. allocated_times s = {}")
  case True
  have tf: "\<exists>s \<in> set subjects'. \<not> is_partially_complete s"
    using classify_facts(1)[OF assms] True by (rule iffD2)
  define inc where "inc = (\<exists>s \<in> set subjects'. is_partially_complete s \<and> \<not> is_complete s)"
  have c: "create_schedule subjects allocations =
        Inr (\<lparr>table = None, is_incomplete = inc\<rparr>, map reset subjects')"
    unfolding create_schedule_eq[OF assms(3)] inc_def using tf by (simp only: not_True_eq_False if_False)
  have e: "evaluate subjects allocations gl = Inr (map reset subjects', gl)"
    if "\<forall>e \<in> set (saved_schedules gl). table e \<noteq> None" for gl
    by (rule evaluate_failed[OF c _ that]) simp
  have "(\<exists>inc. create_schedule subjects allocations =
                  Inr (\<lparr>table = None, is_incomplete = inc\<rparr>, map reset subjects')) \<and>
              (\<forall>gl. (\<forall>e \<in> set (saved_schedules gl). table e \<noteq> None) \<longrightarrow>
                  evaluate subjects allocations gl = Inr (map reset subjects', gl))"
    using c e by blast
  then show ?thesis unfolding if_P[OF True] .
next
  case False
  have ntf: "\<not> (\<exists>s \<in> set subjects'. \<not> is_partially_complete s)"
    using classify_facts(1)[OF assms] False by blast
  have c: "create_schedule subjects allocations =
                Inr (\<lparr>table = Some g,
                      is_incomplete = (\<exists>s \<in> set subjects'. type s = VO \<and>
                                         allocated_times s \<subset> set (times_list s))\<rparr>,
                     map reset subjects')"
    unfolding create_schedule_eq[OF assms(3)] classify_facts(2)[OF assms False]
    using ntf by (simp only: not_False_eq_True if_True)
  show ?thesis unfolding if_not_P[OF False] by (rule c)
qed

theorem classification_outcomes_witness:
  "create_schedule timetable cursors_b =
     Inr (\<lparr>table = Some table_b, is_incomplete = False\<rparr>, map reset timetable_b)"
proof -
  note t = classification_outcomes[OF example_cursors example_fresh' example_materialize]
  have ne: "mo_8_9 \<noteq> di_8_9" by (simp add: slots_numeral)
  have c: "\<not> (\<exists>s \<in> set timetable_b. allocated_times s = {})"
    by (simp add: timetable_b_def mark_allocated_def)
  have i: "\<not> (\<exists>s \<in> set timetable_b. type s = VO \<and> allocated_times s \<subset> set (times_list s))"
    by (auto simp: timetable_b_def mark_allocated_def tutorial_def lecture_def)
  show ?thesis
    using t unfolding if_not_P[OF c] using i by simp
qed

text \<open>
  Claim C7. After the two passes a tutorial (\<open>UE\<close>) has at most one allocated slot,
  one of its declared slots; when the schedule is not abandoned (its table is not
  \<open>None\<close>) it has exactly one. When the schedule is flagged incomplete, some lecture
  (\<open>VO\<close>) has a proper subset of its slots allocated: a tutorial never sets the flag.
\<close>

theorem tutorials_get_exactly_one_slot:
  assumes "cursors_for subjects allocations"
    and "\<forall>s \<in> set subjects. allocated_times s = {}"
    and "materialize subjects allocations = Inr (g, subjects')"
    and "create_schedule subjects allocations = Inr (sched, ss)"
  shows "(\<forall>k < length subjects. type (subjects ! k) = UE \<longrightarrow>
            card (allocated_times (subjects' ! k)) \<le> 1 \<and>
            allocated_times (subjects' ! k) \<subseteq> set (times_list (subjects ! k)) \<and>
            (table sched \<noteq> None \<longrightarrow> card (allocated_times (subjects' ! k)) = 1)) \<and>
         (is_incomplete sched \<longrightarrow>
            (\<exists>l < length subjects. type (subjects ! l) = VO \<and>
               allocated_times (subjects' ! l) \<subset> set (times_list (subjects ! l))))"
proof (intro conjI allI impI)
  fix k assume k: "k < length subjects" and ue: "type (subjects ! k) = UE"
  have fr: "allocated_times (subjects ! k) = {}" using assms(2) k by simp
  obtain sl where sl: "allocated_times (subjects' ! k) \<subseteq> {sl}"
    using materialize_bound_UE[OF assms(1,3) k fr ue] by blast
  then show le1: "card (allocated_times (subjects' ! k)) \<le> 1"
    using card_mono[of "{sl}" "allocated_times (subjects' ! k)"] by simp
  show "allocated_times (subjects' ! k) \<subseteq> set (times_list (subjects ! k))"
    by (rule materialize_bound_times[OF assms(1,3) k fr])
  assume ok: "table sched \<noteq> None"
  have mem: "subjects' ! k \<in> set subjects'"
    using k materialize_length[OF assms(1,3)] by simp
  have "\<not> (\<exists>s \<in> set subjects'. \<not> is_partially_complete s)"
    using assms(3,4) ok by (auto simp: create_schedule_def classify_eq split: if_splits)
  then have "1 \<le> card (allocated_times (subjects' ! k))"
    using mem by (auto simp: is_partially_complete_def)
  then show "card (allocated_times (subjects' ! k)) = 1" using le1 by simp
next
  assume inc: "is_incomplete sched"
  have "\<exists>s \<in> set subjects'. is_partially_complete s \<and> \<not> is_complete s"
    using assms(3,4) inc by (auto simp: create_schedule_def classify_eq)
  then obtain s where s: "s \<in> set subjects'" "is_partially_complete s" "\<not> is_complete s"
    by blast
  have vo: "type s = VO" and ne: "allocated_times s \<noteq> set (times_list s)"
    using s(2,3) by (auto simp: is_complete_def is_partially_complete_def split: if_splits)
  have sub: "allocated_times s \<subseteq> set (times_list s)"
    using materialize_finite(2)[OF assms(1,3,2) s(1)] .
  obtain l where l: "l < length subjects'" "s = subjects' ! l"
    using s(1) by (metis in_set_conv_nth)
  have l': "l < length subjects" using l materialize_length[OF assms(1,3)] by simp
  show "\<exists>l < length subjects. type (subjects ! l) = VO \<and>
               allocated_times (subjects' ! l) \<subset> set (times_list (subjects ! l))"
    using l' l(2) vo ne sub materialize_static_nth(2,3)[OF assms(1,3) l'] by auto
qed

theorem tutorials_get_exactly_one_slot_witness:
  "card (allocated_times (timetable_b ! 0)) = 1 \<and>
   allocated_times (timetable_b ! 0) \<subseteq> set (times_list (timetable ! 0))"
proof -
  note t = tutorials_get_exactly_one_slot[OF example_cursors example_fresh' example_materialize
      example_create]
  have a: "\<forall>k < length timetable. type (timetable ! k) = UE \<longrightarrow>
            card (allocated_times (timetable_b ! k)) \<le> 1 \<and>
            allocated_times (timetable_b ! k) \<subseteq> set (times_list (timetable ! k)) \<and>
            (table \<lparr>table = Some table_b, is_incomplete = False\<rparr> \<noteq> None \<longrightarrow>
               card (allocated_times (timetable_b ! k)) = 1)"
    using t by (rule conjunct1)
  have k: "0 < length timetable" "type (timetable ! 0) = UE"
    "table \<lparr>table = Some table_b, is_incomplete = False\<rparr> \<noteq> None"
    by (simp_all add: example_allocated)
  show ?thesis using a k by blast
qed

text \<open>
  Claim C6. For a candidate that is not abandoned (its schedule has a table), the
  evaluation step of \<open>percolate\<close> counts a duplicate and stores nothing when some
  stored schedule has the same table, and otherwise appends the schedule to the store
  and adds one to \<open>version\<close>. Hence a call of \<open>percolate\<close> that starts with pairwise
  distinct stored tables leaves, whether it returns or raises, pairwise distinct
  stored tables: the store it started with, followed by the schedules accepted since
  in the order of their discovery, each counted once.
\<close>

theorem deduplication:
  assumes "percolate depth subjects allocations gl = Some r"
    and "distinct (map table (saved_schedules gl))"
  shows "(\<forall>subjects allocations sched subjects' t g.
            create_schedule subjects allocations = Inr (sched, subjects') \<and> table sched = Some t \<longrightarrow>
            evaluate subjects allocations g =
              Inr (subjects',
                   if (\<exists>e \<in> set (saved_schedules g). table e = Some t)
                   then g\<lparr>duplicates := duplicates g + 1\<rparr>
                   else g\<lparr>version := version g + 1,
                          saved_schedules := saved_schedules g @ [sched]\<rparr>)) \<and>
         distinct (map table (saved_schedules (globals_of r))) \<and>
         (\<exists>new. saved_schedules (globals_of r) = saved_schedules gl @ new \<and>
                version (globals_of r) = version gl + length new)"
proof -
  have "store_ok gl gl" using assms(2) by (simp add: store_ok_def)
  then have "store_ok gl (globals_of r)" by (rule store_ok_percolate[OF assms(1)])
  then show ?thesis using evaluate_accepted by (simp add: store_ok_def)
qed

theorem deduplication_witness:
  "run 4 [lecture] = Some (Inr ([lecture], [Allocation lecture], lecture_globals)) \<and>
   distinct (map table (saved_schedules init_globals)) \<and>
   create_schedule [lecture] [lecture_cursor (Suc 0)] = Inr (lecture_schedule, [lecture]) \<and>
   table lecture_schedule =
     Some (fill (fill empty_schedule ''lecture'' mo_8_9) ''lecture'' di_8_9) \<and>
   saved_schedules lecture_stored = [lecture_schedule] \<and>
   evaluate [lecture] [lecture_cursor (Suc 0)] lecture_stored =
     Inr ([lecture], lecture_stored\<lparr>duplicates := duplicates lecture_stored + 1\<rparr>) \<and>
   saved_schedules init_globals = [] \<and>
   evaluate [lecture] [lecture_cursor (Suc 0)] init_globals =
     Inr ([lecture], init_globals\<lparr>version := version init_globals + 1,
            saved_schedules := saved_schedules init_globals @ [lecture_schedule]\<rparr>) \<and>
   duplicates lecture_globals = 2 \<and> version lecture_globals = 1 \<and>
   saved_schedules lecture_globals = [lecture_schedule] \<and>
   distinct (map table (saved_schedules lecture_globals)) \<and>
   (\<exists>new. saved_schedules lecture_globals = saved_schedules init_globals @ new \<and>
          version lecture_globals = version init_globals + length new)"
proof -
  let ?t = "fill (fill empty_schedule ''lecture'' mo_8_9) ''lecture'' di_8_9"
  have d: "distinct (map table (saved_schedules init_globals))"
    by (simp add: init_globals_def)
  note t = deduplication[OF lecture_run[unfolded run_def] d]
  have c: "create_schedule [lecture] [lecture_cursor (Suc 0)] = Inr (lecture_schedule, [lecture])"
    by (rule lecture_create) simp
  have ts: "table lecture_schedule = Some ?t" by (simp add: lecture_schedule_def)
  have s: "saved_schedules lecture_stored = [lecture_schedule]"
    "saved_schedules init_globals = []"
    by (simp_all add: lecture_stored_def init_globals_def)
  have step: "\<forall>g. evaluate [lecture] [lecture_cursor (Suc 0)] g =
      Inr ([lecture],
           if (\<exists>e \<in> set (saved_schedules g). table e = Some ?t)
           then g\<lparr>duplicates := duplicates g + 1\<rparr>
           else g\<lparr>version := version g + 1,
                  saved_schedules := saved_schedules g @ [lecture_schedule]\<rparr>)"
    using t c ts by blast
  have e1: "evaluate [lecture] [lecture_cursor (Suc 0)] lecture_stored =
      Inr ([lecture], lecture_stored\<lparr>duplicates := duplicates lecture_stored + 1\<rparr>)"
    using step[rule_format, of lecture_stored] by (simp add: s ts)
  have e0: "evaluate [lecture] [lecture_cursor (Suc 0)] init_globals =
      Inr ([lecture], init_globals\<lparr>version := version init_globals + 1,
            saved_schedules := saved_schedules init_globals @ [lecture_schedule]\<rparr>)"
    using step[rule_format, of init_globals] by (simp add: s)
  have r: "distinct (map table (saved_schedules (globals_of
          (Inr ([lecture], [Allocation lecture], lecture_globals))))) \<and>
        (\<exists>new. saved_schedules (globals_of
          (Inr ([lecture], [Allocation lecture], lecture_globals))) =
            saved_schedules init_globals @ new \<and>
          version (globals_of (Inr ([lecture], [Allocation lecture], lecture_globals))) =
            version init_globals + length new)"
    using t by (rule conjunct2)
  have r1: "distinct (map table (saved_schedules lecture_globals))"
    and r2: "\<exists>new. saved_schedules lecture_globals = saved_schedules init_globals @ new \<and>
          version lecture_globals = version init_globals + length new"
    using r by (simp_all only: globals_of_simps)
  have n: "duplicates lecture_globals = 2" "version lecture_globals = 1"
    "saved_schedules lecture_globals = [lecture_schedule]"
    by (simp_all add: lecture_globals_def)
  show ?thesis
    using lecture_run d c ts s(1) e1 s(2) e0 n r1 r2 by (intro conjI)
qed

text \<open>
  Claim C1 as stated fails: for the single subject without slots the worker's call of
  \<open>percolate\<close>, at the recursion limit the source sets, ends with \<open>IndexError\<close>
  raised out of the traversal instead of returning.
\<close>

theorem empty_slot_list_counterexample:
  "run 700000 [no_slots] = Some (Inl (IndexError, init_globals))"
proof -
  have n: "(700000::nat) = Suc 699999" by simp
  have "no_slots \<in> set [no_slots]" "times_list no_slots = []"
    by (simp_all add: no_slots_def)
  then show ?thesis
    unfolding n run_def by (rule percolate_empty_slots)
qed

text \<open>
  Claim C1, amended. For a subject list with a subject whose slot list is empty, the
  enumerator gives that subject an empty list of tuples, and the first call of
  \<open>percolate\<close> raises \<open>IndexError\<close> when it reads the cursors' current tuples, before
  any candidate is materialized: the globals are still the initial ones, the store is
  empty and the summary counts are zero.
\<close>

theorem empty_slot_list_raises:
  assumes "s \<in> set subjects" "times_list s = []"
  shows "private_array (Allocation s) = [] \<and>
         run (Suc depth) subjects = Some (Inl (IndexError, init_globals)) \<and>
         saved_schedules init_globals = [] \<and> summary init_globals = (0, 0, 0)"
  using percolate_empty_slots[OF assms] empty_slots_array[OF assms(2)]
  by (simp add: run_def summary_def init_globals_def)

theorem empty_slot_list_raises_witness:
  "private_array (Allocation no_slots) = [] \<and>
   run (Suc 0) [tutorial, no_slots] = Some (Inl (IndexError, init_globals)) \<and>
   saved_schedules init_globals = [] \<and> summary init_globals = (0, 0, 0)"
proof -
  have "no_slots \<in> set [tutorial, no_slots]" "times_list no_slots = []"
    by (simp_all add: no_slots_def)
  then show ?thesis by (rule empty_slot_list_raises)
qed

text \<open>
  Claim C2 does not hold of the code. For the three tutorials with four, three and
  three slots the product of the subjects' valid-vector counts is 36, and the worker's
  call of \<open>percolate\<close>, at the recursion limit the source sets, returns after building
  a schedule for 35 combinations, each once. The combination of the first tuple of the
  first subject, the third tuple of the second and the first tuple of the third is a
  point of the product; no schedule is built for it and it never enters the memo.
\<close>

theorem percolate_skips_a_combination:
  "\<exists>subjects' allocations' g.
     run 700000 three_tutorials = Some (Inr (subjects', allocations', g)) \<and>
     length (evaluated g) = 35 \<and> distinct (evaluated g) \<and>
     skipped_combination \<notin> set (evaluated g) \<and>
     skipped_combination \<notin> permutations g \<and>
     list_all2 (\<lambda>s v. v \<in> set (private_array (Allocation s))) three_tutorials
       skipped_combination \<and>
     prod_list (map (\<lambda>s. length (private_array (Allocation s))) three_tutorials) = 36"
proof -
  obtain a' S T where w: "walk 24 (map Allocation three_tutorials) {} [] = Some (a', S, T)"
    and t: "length T = 35" "distinct T" "skipped_combination \<notin> set T"
      "skipped_combination \<notin> S"
    using three_tutorials_walk by (auto simp: map_option_case split: option.splits)
  have w': "walk 24 (map Allocation three_tutorials) (permutations init_globals)
              (evaluated init_globals) = Some (a', S, T)"
    using w by (simp add: init_globals_def)
  obtain g where p: "percolate 24 three_tutorials (map Allocation three_tutorials) init_globals =
      Some (Inr (three_tutorials, a', g))" and e: "evaluated g = T" "permutations g = S"
    using percolate_walk[OF three_tutorials_well_formed three_tutorials_cursors w'] by blast
  have "percolate (24 + 699976) three_tutorials (map Allocation three_tutorials) init_globals =
      Some (Inr (three_tutorials, a', g))"
    using p by (rule percolate_deeper)
  then have r: "run 700000 three_tutorials = Some (Inr (three_tutorials, a', g))"
    by (simp add: run_def del: percolate.simps)
  have m: "list_all2 (\<lambda>s v. v \<in> set (private_array (Allocation s))) three_tutorials
       skipped_combination"
    by (simp add: three_tutorials_def skipped_combination_def three_tutorials_arrays)
  have n: "prod_list (map (\<lambda>s. length (private_array (Allocation s))) three_tutorials) = 36"
    by (simp add: three_tutorials_def three_tutorials_arrays)
  show ?thesis using r t e m n by blast
qed

end
